theory Spec2Isabelle
  imports Main "HOL-Library.Word"
begin

unbundle bit_operations_syntax

section \<open>Bytes and text encodings\<close>

type_synonym byte = "8 word"

text \<open>
  Go strings and byte slices are byte sequences: \<open>string\<close> is a list of 8-bit
  characters, \<open>[]byte\<close> a list of 8-bit words.
\<close>

definition bytes_of :: "string \<Rightarrow> byte list" where
  "bytes_of s = map (\<lambda>c. of_nat (of_char c)) s"

text \<open>
  \<open>encoding/base64\<close>, \<open>StdEncoding.EncodeToString\<close> (Go standard library, RFC 4648
  with \<open>=\<close> padding): three input bytes give four characters of the alphabet.
\<close>

definition encodeStd :: string where
  "encodeStd = ''ABCDEFGHIJKLMNOPQRSTUVWXYZabcdefghijklmnopqrstuvwxyz0123456789+/''"

definition b64 :: "nat \<Rightarrow> char" where
  "b64 n = encodeStd ! (n mod 64)"

fun base64_EncodeToString :: "byte list \<Rightarrow> string" where
  "base64_EncodeToString [] = []"
| "base64_EncodeToString [a] =
     (let v = unat a * 65536
      in [b64 (v div 262144), b64 (v div 4096), CHR ''='', CHR ''=''])"
| "base64_EncodeToString [a, b] =
     (let v = unat a * 65536 + unat b * 256
      in [b64 (v div 262144), b64 (v div 4096), b64 (v div 64), CHR ''=''])"
| "base64_EncodeToString (a # b # c # rest) =
     (let v = unat a * 65536 + unat b * 256 + unat c
      in [b64 (v div 262144), b64 (v div 4096), b64 (v div 64), b64 v]
         @ base64_EncodeToString rest)"

text \<open>\<open>encoding/hex\<close>, \<open>EncodeToString\<close>: two lowercase hexadecimal digits per byte.\<close>

definition hextable :: string where
  "hextable = ''0123456789abcdef''"

definition hex_EncodeToString :: "byte list \<Rightarrow> string" where
  "hex_EncodeToString bs =
     concat (map (\<lambda>b. [hextable ! (unat b div 16), hextable ! (unat b mod 16)]) bs)"

section \<open>pkg/quickxorhash\<close>

definition BlockSize :: nat where "BlockSize = 64"
definition Size :: nat where "Size = 20"
definition shift :: nat where "shift = 11"
definition widthInBits :: nat where "widthInBits = 8 * Size"
definition dataSize :: nat where "dataSize = shift * widthInBits"

text \<open>
  \<open>type quickXorHash struct { data [dataSize]byte; size uint64 }\<close>. The array is a list;
  the array type fixes its length, which is the predicate \<open>valid\<close> below.
\<close>

record quickXorHash =
  data :: "byte list"
  size_q :: "64 word"

definition valid :: "quickXorHash \<Rightarrow> bool" where
  "valid q = (length (data q) = dataSize)"

definition New :: quickXorHash where
  "New = \<lparr>data = replicate dataSize 0, size_q = 0\<rparr>"

text \<open>
  \<open>xorBytes(dst, src) = subtle.XORBytes(dst, src, dst)\<close>: with \<open>n\<close> the smaller of the two
  lengths, \<open>dst[k] = src[k] ^ dst[k]\<close> for \<open>k < n\<close>; returns \<open>n\<close>. The model returns the new
  contents of \<open>dst\<close> as well.
\<close>

definition xorBytes :: "byte list \<Rightarrow> byte list \<Rightarrow> byte list \<times> nat" where
  "xorBytes dst src =
     (let n = min (length src) (length dst)
      in (map2 (XOR) (take n src) (take n dst) @ drop n dst, n))"

text \<open>
  The loop \<open>for len(p)-i >= dataSize { i += xorBytes(q.data[:], p[i:]) }\<close> of \<open>Write\<close>.
  \<open>q.data[:]\<close> has the array's length \<open>dataSize\<close>, so each round advances \<open>i\<close> by
  \<open>dataSize\<close>; the test on the length of \<open>d\<close> is that array type.
\<close>

function Write_loop :: "byte list \<Rightarrow> byte list \<Rightarrow> nat \<Rightarrow> byte list \<times> nat" where
  "Write_loop d p i =
     (if dataSize \<le> length p - i \<and> length d = dataSize
      then (case xorBytes d (drop i p) of (d', n) \<Rightarrow> Write_loop d' p (i + n))
      else (d, i))"
  by pat_completeness auto
termination
  by (relation "measure (\<lambda>(d, p, i). length p - i)")
     (auto simp: xorBytes_def Let_def dataSize_def shift_def widthInBits_def Size_def)

declare Write_loop.simps [simp del]

text \<open>
  \<open>Write\<close> has a pointer receiver: the model returns \<open>n\<close> (the error is always nil) and
  the updated receiver. \<open>q.data[lastRemain:]\<close> is a view of the array's tail, so the
  bytes before \<open>lastRemain\<close> stay.
\<close>

definition Write :: "quickXorHash \<Rightarrow> byte list \<Rightarrow> nat \<times> quickXorHash" where
  "Write q p =
     (let lastRemain = unat (size_q q) mod dataSize;
          (d1, i1) = (if lastRemain \<noteq> 0
                      then (case xorBytes (drop lastRemain (data q)) p of
                              (t, n) \<Rightarrow> (take lastRemain (data q) @ t, n))
                      else (data q, 0));
          d2 = (if i1 \<noteq> length p
                then (case Write_loop d1 p i1 of
                        (d, i) \<Rightarrow> fst (xorBytes d (drop i p)))
                else d1)
      in (length p, q\<lparr>data := d2, size_q := size_q q + of_nat (length p)\<rparr>))"

text \<open>
  One round of the loop of \<open>checkSum\<close>, at buffer position \<open>i\<close>. \<open>shifted\<close> is a Go
  \<open>int\<close>; \<open>byte(x)\<close> keeps its low 8 bits.
\<close>

definition checkSum_step :: "byte list \<Rightarrow> byte list \<Rightarrow> nat \<Rightarrow> byte list" where
  "checkSum_step dat h i =
     (let shift = (i * 11) mod 160;
          shiftBytes = shift div 8;
          shiftBits = shift mod 8;
          shifted = push_bit shiftBits (uint (dat ! i));
          h1 = h[shiftBytes := h ! shiftBytes XOR word_of_int shifted]
      in h1[shiftBytes + 1 := h1 ! (shiftBytes + 1) XOR word_of_int (drop_bit 8 shifted)])"

definition xor_at :: "byte list \<Rightarrow> nat \<Rightarrow> byte \<Rightarrow> byte list" where
  "xor_at h k v = h[k := h ! k XOR v]"

text \<open>
  The tail of \<open>checkSum\<close>: XOR the file length with the least significant bits in
  little endian format.
\<close>

definition xorLength :: "byte list \<Rightarrow> 64 word \<Rightarrow> byte list" where
  "xorLength h0 d =
     (let h = xor_at h0 (Size - 8) (ucast (drop_bit (8 * 0) d));
          h = xor_at h (Size - 7) (ucast (drop_bit (8 * 1) d));
          h = xor_at h (Size - 6) (ucast (drop_bit (8 * 2) d));
          h = xor_at h (Size - 5) (ucast (drop_bit (8 * 3) d));
          h = xor_at h (Size - 4) (ucast (drop_bit (8 * 4) d));
          h = xor_at h (Size - 3) (ucast (drop_bit (8 * 5) d));
          h = xor_at h (Size - 2) (ucast (drop_bit (8 * 6) d));
          h = xor_at h (Size - 1) (ucast (drop_bit (8 * 7) d))
      in h)"

definition checkSum :: "quickXorHash \<Rightarrow> byte list" where
  "checkSum q =
     (let h = foldl (checkSum_step (data q)) (replicate (Size + 1) 0) [0..<dataSize];
          h = xor_at h 0 (h ! 20)
      in xorLength h (size_q q))"

text \<open>
  \<open>Sum\<close> appends the first \<open>Size\<close> bytes of the checksum to \<open>b\<close>. It has a pointer
  receiver too and assigns to no field of it: the receiver comes back as it was.
\<close>

definition Sum_q :: "quickXorHash \<Rightarrow> byte list \<Rightarrow> byte list \<times> quickXorHash" where
  "Sum_q q b = (b @ take Size (checkSum q), q)"

definition Reset :: "quickXorHash \<Rightarrow> quickXorHash" where
  "Reset q = New"


text \<open>
  Helper functions of the proofs: the cyclic XOR that \<open>Write\<close> computes, one byte at a
  time from position \<open>k\<close>, and the checksum of a buffer that is \<open>p\<close> followed by zeros.
\<close>

fun xor_cyclic :: "byte list \<Rightarrow> nat \<Rightarrow> byte list \<Rightarrow> byte list" where
  "xor_cyclic d k [] = d"
| "xor_cyclic d k (b # bs) =
     xor_cyclic (d[k mod dataSize := d ! (k mod dataSize) XOR b]) (Suc k) bs"

definition checkSum_of :: "byte list \<Rightarrow> 64 word \<Rightarrow> byte list" where
  "checkSum_of p n =
     (let h = foldl (checkSum_step p) (replicate (Size + 1) 0) [0..<length p];
          h = xor_at h 0 (h ! 20)
      in xorLength h n)"

section \<open>Standard library functions on strings and paths\<close>

text \<open>
  The functions of \<open>strings\<close> and \<open>path/filepath\<close> that the repository calls, on byte
  strings with \<open>/\<close> as the separator. \<open>Match\<close> is modelled on patterns made of literal
  bytes, \<open>?\<close> and \<open>*\<close> (neither matches the separator).

  \<open>strings.ToLower\<close> and \<open>strings.TrimSpace\<close> are given on strings that hold ASCII bytes
  only (every byte below \<open>utf8.RuneSelf = 128\<close>, the test \<open>isASCII\<close> that \<open>ToLower\<close>
  itself makes): there \<open>ToLower\<close> lowers the bytes \<open>A\<close> to \<open>Z\<close>, and \<open>TrimSpace\<close>
  cuts the bytes tab, line feed, vertical tab, form feed, carriage return and space from
  both ends. On other strings the Go functions decode UTF-8 and use the Unicode tables,
  which are not modelled; the statements about \<open>Parse\<close> below are for ASCII strings.
\<close>

definition isASCII :: "string \<Rightarrow> bool" where
  "isASCII s = list_all (\<lambda>c. (of_char c :: nat) < 128) s"

definition lower_char :: "char \<Rightarrow> char" where
  "lower_char c =
     (let n = (of_char c :: nat) in if 65 \<le> n \<and> n \<le> 90 then char_of (n + 32) else c)"

definition strings_ToLower :: "string \<Rightarrow> string" where
  "strings_ToLower s = map lower_char s"

definition isSpace :: "char \<Rightarrow> bool" where
  "isSpace c = (let n = (of_char c :: nat) in n = 32 \<or> (9 \<le> n \<and> n \<le> 13))"

definition strings_TrimSpace :: "string \<Rightarrow> string" where
  "strings_TrimSpace s = rev (dropWhile isSpace (rev (dropWhile isSpace s)))"

fun strings_Split :: "string \<Rightarrow> char \<Rightarrow> string list" where
  "strings_Split [] sep = [[]]"
| "strings_Split (c # cs) sep =
     (if c = sep then [] # strings_Split cs sep
      else (case strings_Split cs sep of
              [] \<Rightarrow> [[c]]
            | part # parts \<Rightarrow> (c # part) # parts))"

definition strings_HasPrefix :: "string \<Rightarrow> string \<Rightarrow> bool" where
  "strings_HasPrefix s prefix = (take (length prefix) s = prefix)"

fun Ext_scan :: "string \<Rightarrow> string \<Rightarrow> string" where
  "Ext_scan [] suffix = []"
| "Ext_scan (c # front) suffix =
     (if c = CHR ''/'' then []
      else if c = CHR ''.'' then c # suffix
      else Ext_scan front (c # suffix))"

definition filepath_Ext :: "string \<Rightarrow> string" where
  "filepath_Ext path = Ext_scan (rev path) []"

definition filepath_Base :: "string \<Rightarrow> string" where
  "filepath_Base path =
     (if path = [] then ''.''
      else (let stripped = dropWhile (\<lambda>c. c = CHR ''/'') (rev path);
                last_elem = rev (takeWhile (\<lambda>c. c \<noteq> CHR ''/'') stripped)
            in if last_elem = [] then ''/'' else last_elem))"

definition filepath_ToSlash :: "string \<Rightarrow> string" where
  "filepath_ToSlash path = path"

fun filepath_Match :: "string \<Rightarrow> string \<Rightarrow> bool" where
  "filepath_Match [] name = (name = [])"
| "filepath_Match (c # pattern) name =
     (if c = CHR ''*''
      then (filepath_Match pattern name
            \<or> (case name of
                  [] \<Rightarrow> False
                | x # rest \<Rightarrow> x \<noteq> CHR ''/'' \<and> filepath_Match (c # pattern) rest))
      else (case name of
              [] \<Rightarrow> False
            | x # rest \<Rightarrow>
                (if c = CHR ''?'' then x \<noteq> CHR ''/'' else x = c)
                \<and> filepath_Match pattern rest))"

section \<open>internal/scanner: the filter\<close>

record FilterOptions =
  MaxSize :: int
  MinSize :: int
  IncludeExts :: "string list"
  ExcludeExts :: "string list"
  IncludeGlobs :: "string list"
  ExcludeGlobs :: "string list"

definition normalizeExt :: "string \<Rightarrow> string" where
  "normalizeExt ext =
     (if ext = [] then []
      else if \<not> strings_HasPrefix ext ''.'' then ''.'' @ ext
      else ext)"

text \<open>
  The two loops of \<open>matchExtension\<close> are the same search: is \<open>ext\<close> the lowercase
  normal form of an entry of the list.
\<close>

fun ext_listed :: "string list \<Rightarrow> string \<Rightarrow> bool" where
  "ext_listed [] ext = False"
| "ext_listed (e # es) ext =
     (if strings_ToLower (normalizeExt e) = ext then True else ext_listed es ext)"

definition matchExtension :: "FilterOptions \<Rightarrow> string \<Rightarrow> bool" where
  "matchExtension f path =
     (let ext = strings_ToLower (filepath_Ext path)
      in if length (IncludeExts f) > 0 then ext_listed (IncludeExts f) ext
         else if length (ExcludeExts f) > 0 \<and> ext_listed (ExcludeExts f) ext then False
         else True)"

text \<open>
  The two loops of \<open>matchGlob\<close>: does a pattern match the full path or the base name.
  An error of \<open>filepath.Match\<close> is dropped by the source and counts as no match.
\<close>

fun glob_listed :: "string list \<Rightarrow> string \<Rightarrow> string \<Rightarrow> bool" where
  "glob_listed [] normalizedPath baseName = False"
| "glob_listed (pattern # patterns) normalizedPath baseName =
     (if filepath_Match pattern normalizedPath then True
      else if filepath_Match pattern baseName then True
      else glob_listed patterns normalizedPath baseName)"

definition matchGlob :: "FilterOptions \<Rightarrow> string \<Rightarrow> bool" where
  "matchGlob f path =
     (let normalizedPath = filepath_ToSlash path;
          baseName = filepath_Base path
      in if length (IncludeGlobs f) > 0
            \<and> \<not> glob_listed (IncludeGlobs f) normalizedPath baseName
         then False
         else if length (ExcludeGlobs f) > 0
                 \<and> glob_listed (ExcludeGlobs f) normalizedPath baseName
         then False
         else True)"

definition Match :: "FilterOptions \<Rightarrow> string \<Rightarrow> int \<Rightarrow> bool" where
  "Match f path sz =
     (if MaxSize f > 0 \<and> sz > MaxSize f then False
      else if MinSize f > 0 \<and> sz < MinSize f then False
      else if \<not> matchExtension f path then False
      else if \<not> matchGlob f path then False
      else True)"


section \<open>internal/hasher\<close>

text \<open>
  Errors as values. \<open>oserr\<close> stands for the cause that the operating system or the
  reader reports.
\<close>

type_synonym oserr = nat

datatype error =
    NoAlgorithmsSpecified
  | UnknownAlgorithm string
  | NoValidAlgorithms
  | NoHashersProvided
  | FailedToReadData oserr
  | FailedToOpenFile oserr
  | OsError oserr
  | ErrInvalid

text \<open>
  The nine implementations of the interface \<open>Hasher\<close> that the \<open>init\<close> functions
  register, with their methods \<open>Name\<close>, \<open>OutputSize\<close> and \<open>IsBase64\<close>.
\<close>

datatype Hasher =
    md5Hasher | sha1Hasher | sha256Hasher | sha512Hasher | crc32Hasher
  | blake3Hasher | xxh3Hasher | xxh128Hasher | quickxorHasher

fun Name :: "Hasher \<Rightarrow> string" where
  "Name md5Hasher = ''md5''"
| "Name sha1Hasher = ''sha1''"
| "Name sha256Hasher = ''sha256''"
| "Name sha512Hasher = ''sha512''"
| "Name crc32Hasher = ''crc32''"
| "Name blake3Hasher = ''blake3''"
| "Name xxh3Hasher = ''xxh3''"
| "Name xxh128Hasher = ''xxh128''"
| "Name quickxorHasher = ''quickxor''"

fun OutputSize :: "Hasher \<Rightarrow> nat" where
  "OutputSize md5Hasher = 16"
| "OutputSize sha1Hasher = 20"
| "OutputSize sha256Hasher = 32"
| "OutputSize sha512Hasher = 64"
| "OutputSize crc32Hasher = 4"
| "OutputSize blake3Hasher = 32"
| "OutputSize xxh3Hasher = 8"
| "OutputSize xxh128Hasher = 16"
| "OutputSize quickxorHasher = Size"

fun IsBase64 :: "Hasher \<Rightarrow> bool" where
  "IsBase64 quickxorHasher = True"
| "IsBase64 h = False"

text \<open>
  \<open>New\<close> of eight of them builds an accumulator of a package outside the repository
  (\<open>crypto/*\<close>, \<open>hash/crc32\<close>, \<open>zeebo/blake3\<close>, \<open>zeebo/xxh3\<close>). Those packages are a
  parameter. For the six whose accumulator is used as it is: a fresh state, its \<open>Write\<close>
  and its \<open>Sum\<close>. For \<open>zeebo/xxh3\<close>, which the repository wraps: \<open>xxh3.New\<close>, and the
  methods \<open>Write\<close>, \<open>Sum64\<close> and \<open>Sum128\<close> of \<open>*xxh3.Hasher\<close>. The finalizing
  methods have a pointer receiver, so they return the state they leave behind next to
  their result. By the contract of \<open>hash.Hash\<close>, \<open>Write\<close> takes all of \<open>p\<close> and returns
  no error.
\<close>

record Uint128 =
  Hi :: "64 word"
  Lo :: "64 word"

record 'x extlib =
  ext_New :: "Hasher \<Rightarrow> 'x"
  ext_Write :: "Hasher \<Rightarrow> 'x \<Rightarrow> byte list \<Rightarrow> 'x"
  ext_Sum :: "Hasher \<Rightarrow> 'x \<Rightarrow> byte list \<Rightarrow> byte list \<times> 'x"
  xxh3_New :: "'x"
  xxh3_Write :: "'x \<Rightarrow> byte list \<Rightarrow> 'x"
  xxh3_Sum64 :: "'x \<Rightarrow> 64 word \<times> 'x"
  xxh3_Sum128 :: "'x \<Rightarrow> Uint128 \<times> 'x"

text \<open>\<open>binary.BigEndian.PutUint64\<close> on a buffer of 8 bytes: the bytes written.\<close>

definition BigEndian_PutUint64 :: "64 word \<Rightarrow> byte list" where
  "BigEndian_PutUint64 v =
     [ucast (drop_bit 56 v), ucast (drop_bit 48 v), ucast (drop_bit 40 v), ucast (drop_bit 32 v),
      ucast (drop_bit 24 v), ucast (drop_bit 16 v), ucast (drop_bit 8 v), ucast v]"

text \<open>
  A \<open>hash.Hash\<close> value: the QuickXor accumulator of this repository; one of its two
  wrappers \<open>xxh3Hash64\<close> and \<open>xxh3Hash128\<close> around an \<open>*xxh3.Hasher\<close>; or the
  accumulator of a package. \<open>hash_Write\<close> and \<open>hash_Sum\<close> are the calls of \<open>Write\<close> and
  \<open>Sum\<close> through the interface; \<open>hash_Sum\<close> returns the bytes and the accumulator as
  the call leaves it.
\<close>

datatype 'x hash_Hash =
    QuickXor quickXorHash
  | xxh3Hash64 'x
  | xxh3Hash128 'x
  | External Hasher 'x

fun Hasher_New :: "'x extlib \<Rightarrow> Hasher \<Rightarrow> 'x hash_Hash" where
  "Hasher_New lib quickxorHasher = QuickXor New"
| "Hasher_New lib xxh3Hasher = xxh3Hash64 (xxh3_New lib)"
| "Hasher_New lib xxh128Hasher = xxh3Hash128 (xxh3_New lib)"
| "Hasher_New lib h = External h (ext_New lib h)"

fun hash_Write :: "'x extlib \<Rightarrow> 'x hash_Hash \<Rightarrow> byte list \<Rightarrow> 'x hash_Hash" where
  "hash_Write lib (QuickXor q) p = QuickXor (snd (Write q p))"
| "hash_Write lib (xxh3Hash64 h) p = xxh3Hash64 (xxh3_Write lib h p)"
| "hash_Write lib (xxh3Hash128 h) p = xxh3Hash128 (xxh3_Write lib h p)"
| "hash_Write lib (External h x) p = External h (ext_Write lib h x p)"

fun hash_Sum :: "'x extlib \<Rightarrow> 'x hash_Hash \<Rightarrow> byte list \<Rightarrow> byte list \<times> 'x hash_Hash" where
  "hash_Sum lib (QuickXor q) b = (case Sum_q q b of (digest, q') \<Rightarrow> (digest, QuickXor q'))"
| "hash_Sum lib (xxh3Hash64 h) b =
     (case xxh3_Sum64 lib h of
        (sum64, h') \<Rightarrow> (b @ BigEndian_PutUint64 sum64, xxh3Hash64 h'))"
| "hash_Sum lib (xxh3Hash128 h) b =
     (case xxh3_Sum128 lib h of
        (sum128, h') \<Rightarrow>
          (b @ BigEndian_PutUint64 (Hi sum128) @ BigEndian_PutUint64 (Lo sum128),
           xxh3Hash128 h'))"
| "hash_Sum lib (External h x) b =
     (case ext_Sum lib h x b of (digest, x') \<Rightarrow> (digest, External h x'))"

text \<open>
  The registry is a Go map from names to hashers; \<open>Register\<close> and \<open>Get\<close> lowercase
  the key. \<open>registry\<close> is its value once every \<open>init\<close> has run.
\<close>

type_synonym registry = "string \<rightharpoonup> Hasher"

definition Register :: "registry \<Rightarrow> Hasher \<Rightarrow> registry" where
  "Register reg h = reg(strings_ToLower (Name h) \<mapsto> h)"

definition Get :: "registry \<Rightarrow> string \<Rightarrow> Hasher option" where
  "Get reg name = reg (strings_ToLower name)"

definition registry :: registry where
  "registry =
     foldl Register Map.empty
       [md5Hasher, sha1Hasher, sha256Hasher, sha512Hasher, crc32Hasher,
        blake3Hasher, xxh3Hasher, xxh128Hasher, quickxorHasher]"

text \<open>
  The loop of \<open>Parse\<close> over the parts. \<open>seen\<close> is a \<open>map[string]bool\<close>; the message of
  the unknown-algorithm error also lists the registered names, which the model leaves
  out.
\<close>

fun Parse_loop ::
  "registry \<Rightarrow> string list \<Rightarrow> Hasher list \<Rightarrow> (string \<Rightarrow> bool) \<Rightarrow> error + Hasher list" where
  "Parse_loop reg [] hashers seen = Inr hashers"
| "Parse_loop reg (part # parts) hashers seen =
     (let name = strings_TrimSpace (strings_ToLower part)
      in if name = [] then Parse_loop reg parts hashers seen
         else if seen name then Parse_loop reg parts hashers seen
         else (case Get reg name of
                 None \<Rightarrow> Inl (UnknownAlgorithm name)
               | Some h \<Rightarrow> Parse_loop reg parts (hashers @ [h]) (seen(name := True))))"

definition Parse :: "registry \<Rightarrow> string \<Rightarrow> error + Hasher list" where
  "Parse reg names =
     (if names = [] then Inl NoAlgorithmsSpecified
      else (case Parse_loop reg (strings_Split names CHR '','') [] (\<lambda>name. False) of
              Inl err \<Rightarrow> Inl err
            | Inr hashers \<Rightarrow>
                if length hashers = 0 then Inl NoValidAlgorithms else Inr hashers))"

text \<open>
  The entries of a selection: the parts between the commas, lowercased and trimmed,
  without the empty ones.
\<close>

definition entries :: "string list \<Rightarrow> string list" where
  "entries parts =
     filter (\<lambda>name. name \<noteq> []) (map (\<lambda>part. strings_TrimSpace (strings_ToLower part)) parts)"

text \<open>
  Following the words of the specification ("silently drops duplicates", "ordered-unique
  selection"): the first occurrence of every element of a list, in the order of the list.
  It is compared with the loop of \<open>Parse\<close> below.
\<close>

fun firsts :: "'a list \<Rightarrow> 'a list" where
  "firsts [] = []"
| "firsts (x # xs) = x # firsts (removeAll x xs)"

text \<open>
  An \<open>io.Reader\<close> is what it delivers: a sequence of chunks, then end of file or a
  failure. \<open>io.Copy\<close> hands every chunk to the multi-writer, which writes it to each
  hash in turn.
\<close>

record reader =
  chunks :: "byte list list"
  failure :: "oserr option"

definition multiWriter_Write ::
  "'x extlib \<Rightarrow> 'x hash_Hash list \<Rightarrow> byte list \<Rightarrow> 'x hash_Hash list" where
  "multiWriter_Write lib writers p = map (\<lambda>w. hash_Write lib w p) writers"

definition io_Copy ::
  "'x extlib \<Rightarrow> 'x hash_Hash list \<Rightarrow> reader \<Rightarrow> oserr + 'x hash_Hash list" where
  "io_Copy lib writers r =
     (let written = foldl (multiWriter_Write lib) writers (chunks r)
      in case failure r of None \<Rightarrow> Inr written | Some err \<Rightarrow> Inl err)"

definition encode :: "Hasher \<Rightarrow> byte list \<Rightarrow> string" where
  "encode h digest =
     (if IsBase64 h then base64_EncodeToString digest else hex_EncodeToString digest)"

definition HashReader ::
  "'x extlib \<Rightarrow> reader \<Rightarrow> Hasher list \<Rightarrow> error + (string \<rightharpoonup> string)" where
  "HashReader lib r hashers =
     (if length hashers = 0 then Inl NoHashersProvided
      else (let hashes = map (Hasher_New lib) hashers
            in case io_Copy lib hashes r of
                 Inl err \<Rightarrow> Inl (FailedToReadData err)
               | Inr hashes' \<Rightarrow>
                   Inr (foldl (\<lambda>results (h, hh).
                                 results(Name h \<mapsto> encode h (fst (hash_Sum lib hh []))))
                          Map.empty (zip hashers hashes'))))"

section \<open>internal/scanner: the scanner\<close>

record FileInfo =
  IsDir :: bool
  Size_fi :: int

text \<open>
  What \<open>filepath.WalkDir\<close> finds below a root: an entry that is no directory, with its
  path and the answer of its \<open>Info\<close> method (the entry's own metadata: a symbolic link
  is such an entry, and \<open>os.Stat\<close> on its path follows it); or a directory, with its
  path, the error of \<open>os.ReadDir\<close> if any, and its entries.
\<close>

datatype dirTree =
    WalkFile string "oserr + FileInfo"
  | WalkDirectory string "oserr option" "dirTree list"

text \<open>
  The file system is a parameter: what \<open>os.Stat\<close>, \<open>os.Open\<close> and \<open>filepath.Abs\<close>
  answer for a path, and the tree that a walk from a root finds.
\<close>

record filesystem =
  os_Stat :: "string \<Rightarrow> oserr + FileInfo"
  os_Open :: "string \<Rightarrow> oserr + reader"
  filepath_Abs :: "string \<Rightarrow> oserr + string"
  os_Lstat_tree :: "string \<Rightarrow> oserr + dirTree"

datatype ErrorStrategy = SkipOnError | FailOnError

record Scanner =
  Workers :: int
  Filter :: "FilterOptions option"
  Hashers :: "Hasher list"
  OnError :: ErrorStrategy
  Recursive :: bool
  AbsolutePath :: bool

text \<open>\<open>Hashes\<close> is a Go map, nil when there is none; \<open>Error\<close> is nil on success.\<close>

record Result =
  Path :: string
  Size_r :: int
  Hashes :: "(string \<rightharpoonup> string) option"
  Error :: "error option"

text \<open>
  What a scan does, in order: a path handed to a worker, the file system calls made for
  it, and the results sent to the channel, which is closed at the end.
\<close>

datatype event =
    Dispatch string
  | EvStat string
  | EvOpen string
  | EvRead string
  | Emit Result
  | Close

definition HashFile ::
  "'x extlib \<Rightarrow> filesystem \<Rightarrow> string \<Rightarrow> Hasher list
     \<Rightarrow> event list \<times> (error + (string \<rightharpoonup> string))" where
  "HashFile lib fs path hashers =
     (case os_Open fs path of
        Inl err \<Rightarrow> ([EvOpen path], Inl (FailedToOpenFile err))
      | Inr f \<Rightarrow>
          ([EvOpen path] @ (if length hashers = 0 then [] else [EvRead path]),
           HashReader lib f hashers))"

definition outputPath_of :: "filesystem \<Rightarrow> Scanner \<Rightarrow> string \<Rightarrow> string" where
  "outputPath_of fs s path =
     (if AbsolutePath s
      then (case filepath_Abs fs path of Inr absPath \<Rightarrow> absPath | Inl err \<Rightarrow> path)
      else path)"

definition hashed_Result ::
  "string \<Rightarrow> int \<Rightarrow> error + (string \<rightharpoonup> string) \<Rightarrow> Result" where
  "hashed_Result outputPath sz res =
     \<lparr>Path = outputPath, Size_r = sz,
      Hashes = (case res of Inl err \<Rightarrow> None | Inr hashes \<Rightarrow> Some hashes),
      Error = (case res of Inl err \<Rightarrow> Some err | Inr hashes \<Rightarrow> None)\<rparr>"

definition error_Result :: "string \<Rightarrow> error \<Rightarrow> Result" where
  "error_Result path err = \<lparr>Path = path, Size_r = 0, Hashes = None, Error = Some err\<rparr>"

text \<open>\<open>ScanFile\<close> returns nil (here \<open>None\<close>) for a path that the filter rejects.\<close>

definition ScanFile ::
  "'x extlib \<Rightarrow> filesystem \<Rightarrow> Scanner \<Rightarrow> string \<Rightarrow> event list \<times> Result option" where
  "ScanFile lib fs s path =
     (case os_Stat fs path of
        Inl err \<Rightarrow> ([EvStat path], Some (error_Result path (OsError err)))
      | Inr info \<Rightarrow>
          if IsDir info then ([EvStat path], Some (error_Result path ErrInvalid))
          else if (case Filter s of
                     None \<Rightarrow> False
                   | Some f \<Rightarrow> \<not> Match f path (Size_fi info))
          then ([EvStat path], None)
          else (case HashFile lib fs path (Hashers s) of
                  (ops, res) \<Rightarrow>
                    (EvStat path # ops,
                     Some (hashed_Result (outputPath_of fs s path) (Size_fi info) res))))"

text \<open>\<open>processFile\<close>, the worker of \<open>ScanDir\<close>: "assumes filtering is done".\<close>

definition processFile ::
  "'x extlib \<Rightarrow> filesystem \<Rightarrow> Scanner \<Rightarrow> string \<Rightarrow> event list \<times> Result option" where
  "processFile lib fs s path =
     (case os_Stat fs path of
        Inl err \<Rightarrow> ([EvStat path], Some (error_Result path (OsError err)))
      | Inr info \<Rightarrow>
          (case HashFile lib fs path (Hashers s) of
             (ops, res) \<Rightarrow>
               (EvStat path # ops,
                Some (hashed_Result (outputPath_of fs s path) (Size_fi info) res))))"

text \<open>
  The goroutine that \<open>ScanFiles\<close> starts for a path. Its \<open>return\<close> under
  \<open>FailOnError\<close> leaves the goroutine, after the result was sent; nothing follows it
  in the goroutine either way.
\<close>

definition ScanFiles_worker ::
  "'x extlib \<Rightarrow> filesystem \<Rightarrow> Scanner \<Rightarrow> string \<Rightarrow> event list" where
  "ScanFiles_worker lib fs s path =
     (case ScanFile lib fs s path of
        (ops, None) \<Rightarrow> ops
      | (ops, Some result) \<Rightarrow>
          if Error result \<noteq> None \<and> OnError s = FailOnError
          then ops @ [Emit result]
          else ops @ [Emit result])"

text \<open>
  How a scan ends, for a caller that receives every result from the channel.
  \<open>Finished\<close>: the events in their order, the close of the channel last.
  \<open>Panicked\<close>: \<open>make(chan *Result, s.Workers*2)\<close> panics in the caller when the capacity
  is negative. \<open>Blocked\<close>: with \<open>Workers = 0\<close> the semaphore \<open>sem\<close> has no buffer and
  nothing receives from it before a goroutine runs, so the first \<open>sem <- struct{}{}\<close>
  does not return: the events before it, and the channel is never closed.
  \<open>NotDescribed\<close>: with more than one worker the goroutines of several paths run at the
  same time and the order of the events depends on the schedule; and for a width below
  \<open>- 2 ^ 30\<close> the product \<open>s.Workers*2\<close> may wrap around in a Go \<open>int\<close>. Those cases are
  left out: what is stated about whole scans below is for \<open>Workers = 1\<close>.
\<close>

datatype scan =
    Finished "event list"
  | Panicked
  | Blocked "event list"
  | NotDescribed

text \<open>
  The loop of \<open>ScanFiles\<close> over the paths when \<open>Workers = 1\<close>. The semaphore has one
  slot: the loop takes it before it starts a goroutine and gets it back when that
  goroutine ends, so the goroutines run one after the other, in the order of the paths.
  The loop has no exit other than the end of the list.
\<close>

fun ScanFiles_loop ::
  "'x extlib \<Rightarrow> filesystem \<Rightarrow> Scanner \<Rightarrow> string list \<Rightarrow> event list" where
  "ScanFiles_loop lib fs s [] = []"
| "ScanFiles_loop lib fs s (path # paths) =
     Dispatch path # ScanFiles_worker lib fs s path @ ScanFiles_loop lib fs s paths"

definition ScanFiles ::
  "'x extlib \<Rightarrow> filesystem \<Rightarrow> Scanner \<Rightarrow> string list \<Rightarrow> scan" where
  "ScanFiles lib fs s paths =
     (if - (2 ^ 30) \<le> Workers s \<and> Workers s < 0 then Panicked
      else if Workers s = 0 then (if paths = [] then Finished [Close] else Blocked [])
      else if Workers s = 1 then Finished (ScanFiles_loop lib fs s paths @ [Close])
      else NotDescribed)"

text \<open>The same for the second half of \<open>ScanDir\<close>, over the files that the walk kept.\<close>

definition ScanDir_worker ::
  "'x extlib \<Rightarrow> filesystem \<Rightarrow> Scanner \<Rightarrow> string \<Rightarrow> event list" where
  "ScanDir_worker lib fs s path =
     (case processFile lib fs s path of
        (ops, None) \<Rightarrow> ops
      | (ops, Some result) \<Rightarrow> ops @ [Emit result])"

fun ScanDir_loop ::
  "'x extlib \<Rightarrow> filesystem \<Rightarrow> Scanner \<Rightarrow> string list \<Rightarrow> event list" where
  "ScanDir_loop lib fs s [] = []"
| "ScanDir_loop lib fs s (path # files) =
     Dispatch path # ScanDir_worker lib fs s path @ ScanDir_loop lib fs s files"

text \<open>
  The first half of \<open>ScanDir\<close>. \<open>walkFn\<close> is the closure given to
  \<open>filepath.WalkDir\<close>; it returns nil, \<open>fs.SkipDir\<close> or an error, and it appends to
  \<open>files\<close> and sends failure results, which are the state passed along here.
\<close>

datatype walkReturn = WalkNil | SkipDir | WalkErr oserr


type_synonym walkState = "string list \<times> event list"

definition walkFn_error :: "Scanner \<Rightarrow> string \<Rightarrow> oserr \<Rightarrow> walkState \<Rightarrow> walkReturn \<times> walkState" where
  "walkFn_error s path err st =
     (if OnError s = FailOnError then (WalkErr err, st)
      else (WalkNil, (fst st, snd st @ [Emit (error_Result path (OsError err))])))"





text \<open>Reading a trace: the paths dispatched, and the results emitted.\<close>

fun dispatched :: "event list \<Rightarrow> string list" where
  "dispatched [] = []"
| "dispatched (Dispatch path # evs) = path # dispatched evs"
| "dispatched (ev # evs) = dispatched evs"

fun emitted :: "event list \<Rightarrow> Result list" where
  "emitted [] = []"
| "emitted (Emit result # evs) = result # emitted evs"
| "emitted (ev # evs) = emitted evs"

fun reads :: "event list \<Rightarrow> string list" where
  "reads [] = []"
| "reads (EvOpen path # evs) = path # reads evs"
| "reads (EvRead path # evs) = path # reads evs"
| "reads (ev # evs) = reads evs"


section \<open>Running one algorithm alone, and sample inputs\<close>

text \<open>
  Following the words of the specification ("running A alone over the same input"): a
  fresh accumulator of \<open>A\<close> absorbs the chunks in order, is finalized, and the digest
  is written in the encoding of \<open>A\<close>. It is compared with \<open>HashReader\<close> below.
\<close>

definition runAlone :: "'x extlib \<Rightarrow> byte list list \<Rightarrow> Hasher \<Rightarrow> string" where
  "runAlone lib cs A =
     encode A (fst (hash_Sum lib (foldl (hash_Write lib) (Hasher_New lib A) cs) []))"


definition accepts :: "Scanner \<Rightarrow> string \<Rightarrow> FileInfo \<Rightarrow> bool" where
  "accepts s path info =
     (case Filter s of None \<Rightarrow> True | Some f \<Rightarrow> Match f path (Size_fi info))"

definition kept :: "Scanner \<Rightarrow> (string \<times> (oserr + FileInfo)) list \<Rightarrow> string list" where
  "kept s ls =
     map fst (filter (\<lambda>(path, i). case i of Inl e \<Rightarrow> False | Inr info \<Rightarrow> accepts s path info) ls)"

text \<open>
  Inputs for concrete runs. \<open>stub_lib\<close> stands in for the packages outside the
  repository: its accumulators count the bytes, and its finalizing methods give the count
  and leave the accumulator as it was. \<open>sample_fs\<close> is a file system with the
  file \<open>test.txt\<close> of the scanner's tests (the 11 bytes of "hello world"), a directory
  \<open>logs\<close>, which opens but fails to read, and a directory \<open>d\<close> with two symbolic
  links of 4 bytes each: \<open>d/link.txt\<close> to \<open>test.txt\<close> and \<open>d/logs\<close> to \<open>logs\<close>.
\<close>

definition stub_lib :: "nat extlib" where
  "stub_lib =
     \<lparr>ext_New = \<lambda>h. 0, ext_Write = \<lambda>h n p. n + length p,
      ext_Sum = \<lambda>h n b. (b @ [of_nat n], n),
      xxh3_New = 0, xxh3_Write = \<lambda>n p. n + length p,
      xxh3_Sum64 = \<lambda>n. (of_nat n, n),
      xxh3_Sum128 = \<lambda>n. (\<lparr>Hi = 0, Lo = of_nat n\<rparr>, n)\<rparr>"

definition sample_fs :: filesystem where
  "sample_fs =
     \<lparr>os_Stat = (\<lambda>p. if p = ''test.txt'' then Inr \<lparr>IsDir = False, Size_fi = 11\<rparr>
                       else if p = ''logs'' then Inr \<lparr>IsDir = True, Size_fi = 4096\<rparr>
                       else if p = ''d/link.txt'' then Inr \<lparr>IsDir = False, Size_fi = 11\<rparr>
                       else if p = ''d/logs'' then Inr \<lparr>IsDir = True, Size_fi = 4096\<rparr>
                       else Inl 2),
      os_Open = (\<lambda>p. if p = ''test.txt'' \<or> p = ''d/link.txt''
                       then Inr \<lparr>chunks = [bytes_of ''hello world''], failure = None\<rparr>
                       else if p = ''logs'' \<or> p = ''d/logs''
                       then Inr \<lparr>chunks = [], failure = Some 21\<rparr>
                       else Inl 2),
      filepath_Abs = (\<lambda>p. Inr (''/tmp/'' @ p)),
      os_Lstat_tree =
        (\<lambda>p. if p = ''d''
              then Inr (WalkDirectory ''d'' None
                          [WalkFile ''d/link.txt'' (Inr \<lparr>IsDir = False, Size_fi = 4\<rparr>),
                           WalkFile ''d/logs'' (Inr \<lparr>IsDir = False, Size_fi = 4\<rparr>)])
              else Inl 2)\<rparr>"

section \<open>Properties of the QuickXor accumulator\<close>

subsection \<open>What Write computes\<close>

lemma dataSize_val: "dataSize = 1760"
  by (simp add: dataSize_def shift_def widthInBits_def Size_def)

lemma length_xor_cyclic [simp]: "length (xor_cyclic d k p) = length d"
  by (induction p arbitrary: d k) simp_all

lemma xor_cyclic_append:
  "xor_cyclic d k (a @ b) = xor_cyclic (xor_cyclic d k a) (k + length a) b"
  by (induction a arbitrary: d k) simp_all

lemma xor_cyclic_mod:
  "k mod dataSize = k' mod dataSize \<Longrightarrow> xor_cyclic d k p = xor_cyclic d k' p"
proof (induction p arbitrary: d k k')
  case Nil
  then show ?case by simp
next
  case (Cons b bs)
  have "Suc k mod dataSize = Suc k' mod dataSize"
    using Cons.prems by (metis mod_Suc_eq)
  then have "xor_cyclic (d[k mod dataSize := d ! (k mod dataSize) XOR b]) (Suc k) bs
             = xor_cyclic (d[k mod dataSize := d ! (k mod dataSize) XOR b]) (Suc k') bs"
    by (rule Cons.IH)
  then show ?case using Cons.prems by simp
qed

lemma length_fst_xorBytes [simp]: "length (fst (xorBytes dst src)) = length dst"
  by (simp add: xorBytes_def Let_def)

lemma snd_xorBytes [simp]: "snd (xorBytes dst src) = min (length src) (length dst)"
  by (simp add: xorBytes_def Let_def)

text \<open>xorBytes on the tail of the buffer is the cyclic XOR of as many bytes as fit.\<close>

lemma xorBytes_tail:
  "length d = dataSize \<Longrightarrow> k \<le> dataSize \<Longrightarrow>
   take k d @ fst (xorBytes (drop k d) src) = xor_cyclic d k (take (dataSize - k) src)"
proof (induction src arbitrary: d k)
  case Nil
  then show ?case by (simp add: xorBytes_def)
next
  case (Cons b bs)
  show ?case
  proof (cases "k = dataSize")
    case True
    then show ?thesis using Cons.prems by (simp add: xorBytes_def)
  next
    case False
    then have k: "k < dataSize" using Cons.prems by simp
    let ?d' = "d[k := d ! k XOR b]"
    have len: "length ?d' = dataSize" using Cons.prems by simp
    have "dataSize - k = Suc (dataSize - Suc k)" using k by simp
    then have tk: "take (dataSize - k) (b # bs) = b # take (dataSize - Suc k) bs"
      by simp
    have IH: "take (Suc k) ?d' @ fst (xorBytes (drop (Suc k) ?d') bs)
              = xor_cyclic ?d' (Suc k) (take (dataSize - Suc k) bs)"
      using Cons.IH [OF len, of "Suc k"] k by simp
    have dk: "drop k d = d ! k # drop (Suc k) d"
      using k Cons.prems by (simp add: Cons_nth_drop_Suc)
    have t1: "take (Suc k) ?d' = take k d @ [d ! k XOR b]"
      using k Cons.prems by (simp add: take_Suc_conv_app_nth)
    have t2: "drop (Suc k) ?d' = drop (Suc k) d" by simp
    have "take k d @ fst (xorBytes (drop k d) (b # bs))
          = take k d @ [d ! k XOR b] @ fst (xorBytes (drop (Suc k) d) bs)"
      by (simp add: dk xorBytes_def Let_def xor.commute)
    also have "\<dots> = xor_cyclic ?d' (Suc k) (take (dataSize - Suc k) bs)"
      using IH by (simp add: t1 t2)
    also have "\<dots> = xor_cyclic d k (take (dataSize - k) (b # bs))"
      using k by (simp add: tk)
    finally show ?thesis .
  qed
qed

lemma xorBytes_whole:
  "length d = dataSize \<Longrightarrow> fst (xorBytes d src) = xor_cyclic d 0 (take dataSize src)"
  using xorBytes_tail [of d 0 src] by simp


lemma Write_loop_final:
  "length d = dataSize \<Longrightarrow> i \<le> length p \<Longrightarrow>
   (case Write_loop d p i of (d', i') \<Rightarrow> fst (xorBytes d' (drop i' p)))
     = xor_cyclic d 0 (drop i p)"
proof (induction d p i rule: Write_loop.induct)
  case (1 d p i)
  show ?case
  proof (cases "dataSize \<le> length p - i")
    case True
    obtain d' n where x: "xorBytes d (drop i p) = (d', n)" by (cases "xorBytes d (drop i p)")
    have n: "n = dataSize" using x True "1.prems" snd_xorBytes [of d "drop i p"] by simp
    have d': "d' = xor_cyclic d 0 (take dataSize (drop i p))"
      using x xorBytes_whole [OF "1.prems"(1), of "drop i p"] by simp
    have len': "length d' = dataSize" using d' "1.prems" by simp
    have le: "i + n \<le> length p" using n True "1.prems" dataSize_val by simp
    have "(case Write_loop d p i of (d', i') \<Rightarrow> fst (xorBytes d' (drop i' p)))
          = (case Write_loop d' p (i + n) of (d', i') \<Rightarrow> fst (xorBytes d' (drop i' p)))"
      using True "1.prems" x by (subst Write_loop.simps) simp
    also have "\<dots> = xor_cyclic d' 0 (drop (i + n) p)"
      using "1.IH" [OF _ x [symmetric] len' le] True "1.prems" by simp
    also have "\<dots> = xor_cyclic d' (0 + length (take dataSize (drop i p))) (drop (i + n) p)"
      using True by (intro xor_cyclic_mod) simp
    also have "\<dots> = xor_cyclic d 0 (take dataSize (drop i p) @ drop (i + n) p)"
      by (simp add: xor_cyclic_append d')
    also have "take dataSize (drop i p) @ drop (i + n) p = drop i p"
      using n by (metis add.commute append_take_drop_id drop_drop)
    finally show ?thesis .
  next
    case False
    then have "Write_loop d p i = (d, i)" by (subst Write_loop.simps) simp
    moreover have "take dataSize (drop i p) = drop i p" using False by simp
    ultimately show ?thesis using xorBytes_whole [OF "1.prems"(1), of "drop i p"] by simp
  qed
qed

lemma data_Write:
  assumes "valid q"
  shows "data (snd (Write q p)) = xor_cyclic (data q) (unat (size_q q)) p"
proof -
  let ?r = "unat (size_q q) mod dataSize"
  let ?d = "data q"
  have len: "length ?d = dataSize" using assms by (simp add: valid_def)
  have r: "?r < dataSize" by (simp add: dataSize_val)
  have goal: "xor_cyclic ?d (unat (size_q q)) p = xor_cyclic ?d ?r p"
    by (rule xor_cyclic_mod) simp
  show ?thesis
  proof (cases "?r = 0")
    case True
    show ?thesis
    proof (cases "p = []")
      case True
      then show ?thesis using \<open>?r = 0\<close> by (simp add: Write_def Let_def)
    next
      case False
      then have "data (snd (Write q p))
                 = (case Write_loop ?d p 0 of (d, i) \<Rightarrow> fst (xorBytes d (drop i p)))"
        using \<open>?r = 0\<close> by (simp add: Write_def Let_def)
      also have "\<dots> = xor_cyclic ?d 0 p"
        using Write_loop_final [OF len, of 0 p] by simp
      finally show ?thesis using goal \<open>?r = 0\<close> by simp
    qed
  next
    case False
    obtain t n where x: "xorBytes (drop ?r ?d) p = (t, n)" by (cases "xorBytes (drop ?r ?d) p")
    let ?d1 = "take ?r ?d @ t"
    have n: "n = min (length p) (dataSize - ?r)"
      using x snd_xorBytes [of "drop ?r ?d" p] len by simp
    have d1: "?d1 = xor_cyclic ?d ?r (take (dataSize - ?r) p)"
      using xorBytes_tail [OF len, of ?r p] r x by simp
    have len1: "length ?d1 = dataSize" using d1 len by simp
    show ?thesis
    proof (cases "n = length p")
      case True
      then have "data (snd (Write q p)) = ?d1"
        using False x by (simp add: Write_def Let_def)
      moreover have "take (dataSize - ?r) p = p" using True n by simp
      ultimately show ?thesis using d1 goal by simp
    next
      case neq: False
      then have nn: "n = dataSize - ?r" and lt: "dataSize - ?r < length p" using n by auto
      have "data (snd (Write q p))
            = (case Write_loop ?d1 p n of (d, i) \<Rightarrow> fst (xorBytes d (drop i p)))"
        using False x neq by (simp add: Write_def Let_def)
      also have "\<dots> = xor_cyclic ?d1 0 (drop n p)"
        using Write_loop_final [OF len1, of n p] nn lt by simp
      also have "\<dots> = xor_cyclic ?d1 (?r + length (take (dataSize - ?r) p)) (drop n p)"
        using lt r by (intro xor_cyclic_mod) (simp add: min_def)
      also have "\<dots> = xor_cyclic ?d ?r (take (dataSize - ?r) p @ drop n p)"
        by (simp add: xor_cyclic_append d1)
      also have "take (dataSize - ?r) p @ drop n p = p" using nn by simp
      finally show ?thesis using goal by simp
    qed
  qed
qed

lemma size_q_Write [simp]: "size_q (snd (Write q p)) = size_q q + of_nat (length p)"
  by (simp add: Write_def Let_def split: prod.splits)

lemma fst_Write [simp]: "fst (Write q p) = length p"
  by (simp add: Write_def Let_def split: prod.splits)

lemma valid_Write: "valid q \<Longrightarrow> valid (snd (Write q p))"
  using data_Write [of q p] by (simp add: valid_def)

lemma more_Write [simp]: "quickXorHash.more (snd (Write q p)) = quickXorHash.more q"
  by (simp add: Write_def Let_def split: prod.splits)

lemma map2_xor_zeros: "map2 (XOR) p (replicate (length p) (0::byte)) = p"
  by (induction p) simp_all

lemma Write_loop_short: "length p - i < dataSize \<Longrightarrow> Write_loop d p i = (d, i)"
  by (subst Write_loop.simps) simp

lemma Write_New_short:
  assumes "length p < dataSize"
  shows "snd (Write New p)
         = \<lparr>data = p @ replicate (dataSize - length p) 0, size_q = of_nat (length p)\<rparr>"
proof (cases "p = []")
  case True
  then show ?thesis by (simp add: Write_def New_def)
next
  case False
  have "fst (xorBytes (replicate dataSize 0) p) = p @ replicate (dataSize - length p) 0"
    using assms by (simp add: xorBytes_def Let_def min_def map2_xor_zeros)
  then show ?thesis
    using False assms by (simp add: Write_def New_def Write_loop_short)
qed

lemma checkSum_step_zero: "dat ! i = 0 \<Longrightarrow> checkSum_step dat h i = h"
  by (simp add: checkSum_step_def Let_def)

lemma foldl_checkSum_step_zeros:
  "(\<And>i. i \<in> set is \<Longrightarrow> dat ! i = 0) \<Longrightarrow> foldl (checkSum_step dat) h is = h"
  by (induction "is" arbitrary: h) (simp_all add: checkSum_step_zero)

lemma foldl_checkSum_step_cong:
  "(\<And>i. i \<in> set is \<Longrightarrow> dat ! i = dat' ! i) \<Longrightarrow>
   foldl (checkSum_step dat) h is = foldl (checkSum_step dat') h is"
  by (induction "is" arbitrary: h) (simp_all add: checkSum_step_def)

lemma foldl_checkSum_step_padded:
  "foldl (checkSum_step (xs @ replicate m 0)) h [0..<length xs + m]
   = foldl (checkSum_step xs) h [0..<length xs]"
proof -
  let ?dat = "xs @ replicate m 0"
  have "[0..<length xs + m] = [0..<length xs] @ [length xs..<length xs + m]"
    by (rule upt_add_eq_append) simp
  then have "foldl (checkSum_step ?dat) h [0..<length xs + m]
        = foldl (checkSum_step ?dat) (foldl (checkSum_step ?dat) h [0..<length xs])
            [length xs..<length xs + m]"
    by simp
  also have "\<dots> = foldl (checkSum_step ?dat) h [0..<length xs]"
  proof (rule foldl_checkSum_step_zeros)
    fix i assume "i \<in> set [length xs..<length xs + m]"
    then have "length xs \<le> i" and "i - length xs < m" by auto
    then show "(xs @ replicate m 0) ! i = 0" by (simp add: nth_append)
  qed
  also have "\<dots> = foldl (checkSum_step xs) h [0..<length xs]"
    by (rule foldl_checkSum_step_cong) (simp add: nth_append)
  finally show ?thesis .
qed

lemma checkSum_loop_short:
  assumes "length p < dataSize"
  shows "foldl (checkSum_step (data (snd (Write New p)))) h [0..<dataSize]
         = foldl (checkSum_step p) h [0..<length p]"
  using assms foldl_checkSum_step_padded [of p "dataSize - length p" h]
  by (simp add: Write_New_short)


lemma checkSum_Write_New:
  "length p < dataSize \<Longrightarrow> checkSum (snd (Write New p)) = checkSum_of p (of_nat (length p))"
proof -
  assume a: "length p < dataSize"
  have "size_q (snd (Write New p)) = of_nat (length p)" by (simp add: New_def)
  then show ?thesis
    by (simp only: checkSum_def checkSum_of_def checkSum_loop_short [OF a])
qed

subsection \<open>Evaluating the checksum of a short input\<close>

lemma replicate_21: "replicate 21 (0::byte) = [0,0,0,0,0,0,0,0,0,0,0,0,0,0,0,0,0,0,0,0,0]"
  by (simp add: numeral_eq_Suc)

lemma list_update_Cons_numeral:
  "(x # xs)[numeral k := y] = x # xs[pred_numeral k := y]"
  by (simp add: numeral_eq_Suc)

lemmas checkSum_eval =
  checkSum_of_def replicate_21 upt_conv_Cons checkSum_step_def Let_def xor_at_def
  xorLength_def Size_def b64_def encodeStd_def list_update_Cons_numeral

lemma Sum_q_Write_New:
  "length p < dataSize \<Longrightarrow>
   fst (Sum_q (snd (Write New p)) b) = b @ take Size (checkSum_of p (of_nat (length p)))"
  by (simp add: Sum_q_def checkSum_Write_New)


lemma valid_New: "valid New"
  by (simp add: valid_def New_def)

lemma unat_size_q_Write:
  assumes "unat (size_q q) + length a < 2 ^ 64"
  shows "unat (size_q (snd (Write q a))) = unat (size_q q) + length a"
proof -
  have la: "length a < 2 ^ 64" using assms by simp
  have "unat (of_nat (length a) :: 64 word) = length a"
    using la by (simp add: unat_of_nat)
  then have "unat (size_q q) + unat (of_nat (length a) :: 64 word) < 2 ^ LENGTH(64)"
    using assms by simp
  then have "unat (size_q q + of_nat (length a)) = unat (size_q q) + unat (of_nat (length a) :: 64 word)"
    by (simp only: unat_add_lem)
  then show ?thesis
    using \<open>unat (of_nat (length a) :: 64 word) = length a\<close> by simp
qed

lemma Write_append:
  assumes "valid q" and "unat (size_q q) + length a < 2 ^ 64"
  shows "snd (Write (snd (Write q a)) b) = snd (Write q (a @ b))"
proof (rule quickXorHash.equality)
  have u: "unat (size_q q + of_nat (length a)) = unat (size_q q) + length a"
    using unat_size_q_Write [OF assms(2)] by simp
  have "data (snd (Write (snd (Write q a)) b))
        = xor_cyclic (xor_cyclic (data q) (unat (size_q q)) a) (unat (size_q q) + length a) b"
    using assms(1) u by (simp add: data_Write valid_Write)
  also have "\<dots> = data (snd (Write q (a @ b)))"
    using assms by (simp add: data_Write xor_cyclic_append)
  finally show "data (snd (Write (snd (Write q a)) b)) = data (snd (Write q (a @ b)))" .
  show "size_q (snd (Write (snd (Write q a)) b)) = size_q (snd (Write q (a @ b)))"
    by (simp add: add.assoc)
  show "quickXorHash.more (snd (Write (snd (Write q a)) b))
        = quickXorHash.more (snd (Write q (a @ b)))"
    by simp
qed

lemma Write_Nil: "Write q [] = (0, q)"
  by (simp add: Write_def Let_def xorBytes_def)

lemma foldl_Write_concat:
  "valid q \<Longrightarrow> unat (size_q q) + length (concat cs) < 2 ^ 64 \<Longrightarrow>
   foldl (\<lambda>q c. snd (Write q c)) q cs = snd (Write q (concat cs))"
proof (induction cs arbitrary: q)
  case Nil
  then show ?case by (simp add: Write_Nil)
next
  case (Cons c cs)
  have 1: "valid (snd (Write q c))" using Cons.prems by (simp add: valid_Write)
  have 2: "unat (size_q (snd (Write q c))) + length (concat cs) < 2 ^ 64"
    using Cons.prems unat_size_q_Write [of q c] by simp
  have "foldl (\<lambda>q c. snd (Write q c)) q (c # cs)
        = snd (Write (snd (Write q c)) (concat cs))"
    using Cons.IH [OF 1 2] by simp
  also have "\<dots> = snd (Write q (c @ concat cs))"
    using Cons.prems by (intro Write_append) simp_all
  finally show ?case by simp
qed

subsection \<open>The claims about the accumulator\<close>

text \<open>
  C1. The accumulator reproduces the reference vectors of QuickXorHash: a fresh
  accumulator that absorbed nothing, the ASCII bytes of "hello", or those of
  "hello world", finalizes to the 20 bytes whose standard base64 encoding is the
  published digest. \<open>checkSum\<close> is the finalization of the source: every buffer
  position \<open>i\<close> is shifted by \<open>(11 * i) mod 160\<close> bits into a 21-byte buffer, byte 20
  is folded into byte 0, and the little-endian 64-bit byte count is XORed into the last
  8 of the 20 bytes.
\<close>

theorem quickxor_reference_vectors:
  "base64_EncodeToString (fst (Sum_q (snd (Write New (bytes_of ''''))) []))
     = ''AAAAAAAAAAAAAAAAAAAAAAAAAAA=''
   \<and> base64_EncodeToString (fst (Sum_q (snd (Write New (bytes_of ''hello''))) []))
     = ''aCgDG9jwBgAAAAAABQAAAAAAAAA=''
   \<and> base64_EncodeToString (fst (Sum_q (snd (Write New (bytes_of ''hello world''))) []))
     = ''aCgDG9jwBhDc4Q1yawMZAAAAAAA=''"
proof (intro conjI)
  have e: "bytes_of '''' = []" by (simp add: bytes_of_def)
  have "length (bytes_of '''') < dataSize" by (simp add: e dataSize_val)
  then show "base64_EncodeToString (fst (Sum_q (snd (Write New (bytes_of ''''))) []))
     = ''AAAAAAAAAAAAAAAAAAAAAAAAAAA=''"
    by (simp only: Sum_q_Write_New e) (simp add: checkSum_eval)
next
  have e: "bytes_of ''hello'' = [104, 101, 108, 108, 111]" by (simp add: bytes_of_def)
  have "length (bytes_of ''hello'') < dataSize" by (simp add: e dataSize_val)
  then show "base64_EncodeToString (fst (Sum_q (snd (Write New (bytes_of ''hello''))) []))
     = ''aCgDG9jwBgAAAAAABQAAAAAAAAA=''"
    by (simp only: Sum_q_Write_New e) (simp add: checkSum_eval)
next
  have e: "bytes_of ''hello world'' = [104, 101, 108, 108, 111, 32, 119, 111, 114, 108, 100]"
    by (simp add: bytes_of_def)
  have "length (bytes_of ''hello world'') < dataSize" by (simp add: e dataSize_val)
  then show "base64_EncodeToString (fst (Sum_q (snd (Write New (bytes_of ''hello world''))) []))
     = ''aCgDG9jwBhDc4Q1yawMZAAAAAAA=''"
    by (simp only: Sum_q_Write_New e) (simp add: checkSum_eval)
qed

lemma foldl_hash_Write_QuickXor:
  "foldl (hash_Write lib) (QuickXor q) cs = QuickXor (foldl (\<lambda>q c. snd (Write q c)) q cs)"
  by (induction cs arbitrary: q) simp_all

lemma foldl_hash_Write_External:
  assumes "\<And>x a b. ext_Write lib h (ext_Write lib h x a) b = ext_Write lib h x (a @ b)"
    and "\<And>x. ext_Write lib h x [] = x"
  shows "foldl (hash_Write lib) (External h x) cs = hash_Write lib (External h x) (concat cs)"
proof (induction cs arbitrary: x)
  case Nil
  show ?case by (simp add: assms(2))
next
  case (Cons c cs)
  have "foldl (hash_Write lib) (External h x) (c # cs)
        = hash_Write lib (External h (ext_Write lib h x c)) (concat cs)"
    using Cons.IH [of "ext_Write lib h x c"] by simp
  then show ?case by (simp add: assms(1))
qed

lemma foldl_hash_Write_xxh3:
  assumes "\<And>x a b. xxh3_Write lib (xxh3_Write lib x a) b = xxh3_Write lib x (a @ b)"
    and "\<And>x. xxh3_Write lib x [] = x"
  shows "foldl (hash_Write lib) (xxh3Hash64 x) cs = hash_Write lib (xxh3Hash64 x) (concat cs)"
    and "foldl (hash_Write lib) (xxh3Hash128 x) cs = hash_Write lib (xxh3Hash128 x) (concat cs)"
proof -
  show "foldl (hash_Write lib) (xxh3Hash64 x) cs = hash_Write lib (xxh3Hash64 x) (concat cs)"
  proof (induction cs arbitrary: x)
    case Nil
    show ?case by (simp add: assms(2))
  next
    case (Cons c cs)
    have "foldl (hash_Write lib) (xxh3Hash64 x) (c # cs)
          = hash_Write lib (xxh3Hash64 (xxh3_Write lib x c)) (concat cs)"
      using Cons.IH [of "xxh3_Write lib x c"] by simp
    then show ?case by (simp add: assms(1))
  qed
  show "foldl (hash_Write lib) (xxh3Hash128 x) cs = hash_Write lib (xxh3Hash128 x) (concat cs)"
  proof (induction cs arbitrary: x)
    case Nil
    show ?case by (simp add: assms(2))
  next
    case (Cons c cs)
    have "foldl (hash_Write lib) (xxh3Hash128 x) (c # cs)
          = hash_Write lib (xxh3Hash128 (xxh3_Write lib x c)) (concat cs)"
      using Cons.IH [of "xxh3_Write lib x c"] by simp
    then show ?case by (simp add: assms(1))
  qed
qed

text \<open>
  C3. For QuickXor, absorbing the chunks \<open>cs\<close> one after the other leaves the
  accumulator in the state that absorbing their concatenation in one call does, so the
  digests agree; and absorbing a zero-length chunk changes nothing. The accumulator
  \<open>q\<close> is any state of the Go type (its buffer has \<open>dataSize\<close> bytes), a fresh one
  included, and the byte counter must not pass \<open>2 ^ 64\<close>, which the length of a Go
  slice cannot make a fresh accumulator do. The same holds for QuickXor behind the
  interface \<open>hash.Hash\<close>; for the accumulator of a package outside the repository
  whenever the \<open>Write\<close> of that package is itself independent of the chunking; and for
  the two wrappers of the repository around \<open>*xxh3.Hasher\<close>, whose \<open>Write\<close> hands the
  chunk to the \<open>Write\<close> of the package, whenever that one is independent of the chunking.
\<close>

theorem Write_chunking:
  assumes "valid q" and "unat (size_q q) + length (concat cs) < 2 ^ 64"
  shows "foldl (\<lambda>q c. snd (Write q c)) q cs = snd (Write q (concat cs))
         \<and> fst (Sum_q (foldl (\<lambda>q c. snd (Write q c)) q cs) b)
             = fst (Sum_q (snd (Write q (concat cs))) b)
         \<and> snd (Write q []) = q
         \<and> foldl (hash_Write lib) (QuickXor q) cs = hash_Write lib (QuickXor q) (concat cs)
         \<and> ((\<forall>x a b. ext_Write lib h (ext_Write lib h x a) b = ext_Write lib h x (a @ b))
              \<and> (\<forall>x. ext_Write lib h x [] = x)
              \<longrightarrow> (\<forall>x. foldl (hash_Write lib) (External h x) cs
                          = hash_Write lib (External h x) (concat cs)))
         \<and> ((\<forall>x a b. xxh3_Write lib (xxh3_Write lib x a) b = xxh3_Write lib x (a @ b))
              \<and> (\<forall>x. xxh3_Write lib x [] = x)
              \<longrightarrow> (\<forall>x. foldl (hash_Write lib) (xxh3Hash64 x) cs
                          = hash_Write lib (xxh3Hash64 x) (concat cs)
                        \<and> foldl (hash_Write lib) (xxh3Hash128 x) cs
                          = hash_Write lib (xxh3Hash128 x) (concat cs)))"
  using assms
  by (simp add: foldl_Write_concat Write_Nil foldl_hash_Write_QuickXor foldl_hash_Write_External
        foldl_hash_Write_xxh3)

theorem Write_chunking_witness:
  "valid New
   \<and> unat (size_q New) + length (concat [bytes_of ''hello'', bytes_of '' world'']) < 2 ^ 64
   \<and> foldl (\<lambda>q c. snd (Write q c)) New [bytes_of ''hello'', bytes_of '' world'']
       = snd (Write New (bytes_of ''hello world''))
   \<and> fst (Sum_q (foldl (\<lambda>q c. snd (Write q c)) New [bytes_of ''hello'', bytes_of '' world'']) [])
       = fst (Sum_q (snd (Write New (bytes_of ''hello world''))) [])
   \<and> snd (Write New []) = New
   \<and> (\<forall>x a b. ext_Write stub_lib md5Hasher (ext_Write stub_lib md5Hasher x a) b
                 = ext_Write stub_lib md5Hasher x (a @ b))
   \<and> (\<forall>x. ext_Write stub_lib md5Hasher x [] = x)
   \<and> foldl (hash_Write stub_lib) (External md5Hasher 0) [bytes_of ''hello'', bytes_of '' world'']
       = hash_Write stub_lib (External md5Hasher 0) (bytes_of ''hello world'')
   \<and> (\<forall>x a b. xxh3_Write stub_lib (xxh3_Write stub_lib x a) b = xxh3_Write stub_lib x (a @ b))
   \<and> (\<forall>x. xxh3_Write stub_lib x [] = x)
   \<and> foldl (hash_Write stub_lib) (xxh3Hash64 0) [bytes_of ''hello'', bytes_of '' world'']
       = hash_Write stub_lib (xxh3Hash64 0) (bytes_of ''hello world'')
   \<and> foldl (hash_Write stub_lib) (xxh3Hash128 0) [bytes_of ''hello'', bytes_of '' world'']
       = hash_Write stub_lib (xxh3Hash128 0) (bytes_of ''hello world'')"
proof -
  have h1: "valid New" by (rule valid_New)
  have h2: "unat (size_q New) + length (concat [bytes_of ''hello'', bytes_of '' world''])
            < 2 ^ 64"
    by (simp add: New_def bytes_of_def)
  have c: "concat [bytes_of ''hello'', bytes_of '' world''] = bytes_of ''hello world''"
    by (simp add: bytes_of_def)
  have l1: "\<forall>x a b. ext_Write stub_lib md5Hasher (ext_Write stub_lib md5Hasher x a) b
                 = ext_Write stub_lib md5Hasher x (a @ b)"
    by (simp add: stub_lib_def)
  have l2: "\<forall>x. ext_Write stub_lib md5Hasher x [] = x" by (simp add: stub_lib_def)
  have l3: "\<forall>x a b. xxh3_Write stub_lib (xxh3_Write stub_lib x a) b
                 = xxh3_Write stub_lib x (a @ b)"
    by (simp add: stub_lib_def)
  have l4: "\<forall>x. xxh3_Write stub_lib x [] = x" by (simp add: stub_lib_def)
  show ?thesis
    using h1 h2 l1 l2 l3 l4 Write_chunking [OF h1 h2, of "[]" stub_lib md5Hasher]
    unfolding c by simp
qed

lemma hash_Sum_unchanged:
  assumes "case acc of
             QuickXor q \<Rightarrow> True
           | xxh3Hash64 h \<Rightarrow> snd (xxh3_Sum64 lib h) = h
           | xxh3Hash128 h \<Rightarrow> snd (xxh3_Sum128 lib h) = h
           | External A x \<Rightarrow> snd (ext_Sum lib A x b) = x"
  shows "snd (hash_Sum lib acc b) = acc"
  using assms by (cases acc) (simp_all add: Sum_q_def case_prod_beta)

text \<open>
  C9. Finalizing through the interface \<open>hash.Hash\<close> leaves the accumulator as it was: a
  second \<open>Sum\<close> returns the same bytes, and a \<open>Write\<close> after it behaves as if \<open>Sum\<close> had
  not been called. For QuickXor this holds in every state without condition. The wrapper
  \<open>xxh3Hash64\<close> (\<open>xxh3Hash128\<close>) adds no change of its own to what \<open>Sum64\<close> (\<open>Sum128\<close>)
  of the package does to the \<open>*xxh3.Hasher\<close> inside, so it holds for it in every state that
  the package's method leaves as it was; its digest is the big-endian bytes of the
  package's result after \<open>b\<close>. For the six accumulators that are used as the packages
  provide them it is the same statement about \<open>Sum\<close> of the package. The state \<open>acc\<close> is
  any state, so any that a fresh accumulator reaches by a sequence of \<open>Write\<close> calls. For
  those states it is stated again: for QuickXor without condition, and for each of the
  nine registered algorithms when the finalizing methods of the packages leave their
  accumulator as it was.
\<close>

theorem hash_Sum_idempotent:
  assumes "case acc of
             QuickXor q \<Rightarrow> True
           | xxh3Hash64 h \<Rightarrow> snd (xxh3_Sum64 lib h) = h
           | xxh3Hash128 h \<Rightarrow> snd (xxh3_Sum128 lib h) = h
           | External A x \<Rightarrow> snd (ext_Sum lib A x b) = x"
  shows "snd (hash_Sum lib acc b) = acc
         \<and> fst (hash_Sum lib (snd (hash_Sum lib acc b)) b) = fst (hash_Sum lib acc b)
         \<and> hash_Write lib (snd (hash_Sum lib acc b)) p = hash_Write lib acc p
         \<and> fst (hash_Sum lib (hash_Write lib (snd (hash_Sum lib acc b)) p) b')
             = fst (hash_Sum lib (hash_Write lib acc p) b')
         \<and> (case acc of
               QuickXor q \<Rightarrow> fst (hash_Sum lib acc b) = b @ take Size (checkSum q)
             | xxh3Hash64 h \<Rightarrow>
                 fst (hash_Sum lib acc b) = b @ BigEndian_PutUint64 (fst (xxh3_Sum64 lib h))
             | xxh3Hash128 h \<Rightarrow>
                 fst (hash_Sum lib acc b)
                 = b @ BigEndian_PutUint64 (Hi (fst (xxh3_Sum128 lib h)))
                     @ BigEndian_PutUint64 (Lo (fst (xxh3_Sum128 lib h)))
             | External A x \<Rightarrow> fst (hash_Sum lib acc b) = fst (ext_Sum lib A x b))
         \<and> snd (hash_Sum lib (foldl (hash_Write lib) (Hasher_New lib quickxorHasher) cs) b)
             = foldl (hash_Write lib) (Hasher_New lib quickxorHasher) cs
         \<and> ((\<forall>h. snd (xxh3_Sum64 lib h) = h) \<and> (\<forall>h. snd (xxh3_Sum128 lib h) = h)
              \<and> (\<forall>B x. snd (ext_Sum lib B x b) = x)
              \<longrightarrow> (\<forall>A reached.
                     reached = foldl (hash_Write lib) (Hasher_New lib A) cs \<longrightarrow>
                     snd (hash_Sum lib reached b) = reached
                     \<and> fst (hash_Sum lib (snd (hash_Sum lib reached b)) b)
                         = fst (hash_Sum lib reached b)
                     \<and> hash_Write lib (snd (hash_Sum lib reached b)) p
                         = hash_Write lib reached p))
         \<and> snd (Sum_q q b) = q
         \<and> fst (Sum_q (snd (Sum_q q b)) b) = fst (Sum_q q b)
         \<and> Write (snd (Sum_q q b)) p = Write q p"
proof -
  have u: "snd (hash_Sum lib acc b) = acc" using assms by (rule hash_Sum_unchanged)
  have d: "case acc of
               QuickXor q \<Rightarrow> fst (hash_Sum lib acc b) = b @ take Size (checkSum q)
             | xxh3Hash64 h \<Rightarrow>
                 fst (hash_Sum lib acc b) = b @ BigEndian_PutUint64 (fst (xxh3_Sum64 lib h))
             | xxh3Hash128 h \<Rightarrow>
                 fst (hash_Sum lib acc b)
                 = b @ BigEndian_PutUint64 (Hi (fst (xxh3_Sum128 lib h)))
                     @ BigEndian_PutUint64 (Lo (fst (xxh3_Sum128 lib h)))
             | External A x \<Rightarrow> fst (hash_Sum lib acc b) = fst (ext_Sum lib A x b)"
    by (cases acc) (simp_all add: Sum_q_def case_prod_beta)
  have f: "snd (hash_Sum lib (foldl (hash_Write lib) (Hasher_New lib quickxorHasher) cs) b)
             = foldl (hash_Write lib) (Hasher_New lib quickxorHasher) cs"
    by (simp add: foldl_hash_Write_QuickXor Sum_q_def)
  have s: "snd (Sum_q q b) = q \<and> fst (Sum_q (snd (Sum_q q b)) b) = fst (Sum_q q b)
           \<and> Write (snd (Sum_q q b)) p = Write q p"
    by (simp add: Sum_q_def)
  have g: "(\<forall>h. snd (xxh3_Sum64 lib h) = h) \<and> (\<forall>h. snd (xxh3_Sum128 lib h) = h)
              \<and> (\<forall>B x. snd (ext_Sum lib B x b) = x)
              \<longrightarrow> (\<forall>A reached.
                     reached = foldl (hash_Write lib) (Hasher_New lib A) cs \<longrightarrow>
                     snd (hash_Sum lib reached b) = reached
                     \<and> fst (hash_Sum lib (snd (hash_Sum lib reached b)) b)
                         = fst (hash_Sum lib reached b)
                     \<and> hash_Write lib (snd (hash_Sum lib reached b)) p
                         = hash_Write lib reached p)"
  proof (intro impI allI)
    fix A reached
    assume l: "(\<forall>h. snd (xxh3_Sum64 lib h) = h) \<and> (\<forall>h. snd (xxh3_Sum128 lib h) = h)
               \<and> (\<forall>B x. snd (ext_Sum lib B x b) = x)"
    have "case reached of
             QuickXor q \<Rightarrow> True
           | xxh3Hash64 h \<Rightarrow> snd (xxh3_Sum64 lib h) = h
           | xxh3Hash128 h \<Rightarrow> snd (xxh3_Sum128 lib h) = h
           | External A x \<Rightarrow> snd (ext_Sum lib A x b) = x"
      using l by (cases reached) simp_all
    then have "snd (hash_Sum lib reached b) = reached" by (rule hash_Sum_unchanged)
    then show "snd (hash_Sum lib reached b) = reached
                     \<and> fst (hash_Sum lib (snd (hash_Sum lib reached b)) b)
                         = fst (hash_Sum lib reached b)
                     \<and> hash_Write lib (snd (hash_Sum lib reached b)) p
                         = hash_Write lib reached p"
      by simp
  qed
  show ?thesis using d f s u g by simp
qed

theorem hash_Sum_idempotent_witness:
  "snd (xxh3_Sum64 stub_lib 11) = 11
   \<and> (\<forall>h. snd (xxh3_Sum64 stub_lib h) = h) \<and> (\<forall>h. snd (xxh3_Sum128 stub_lib h) = h)
   \<and> (\<forall>B x. snd (ext_Sum stub_lib B x []) = x)
   \<and> foldl (hash_Write stub_lib) (Hasher_New stub_lib xxh3Hasher)
         [bytes_of ''hello'', bytes_of '' world''] = xxh3Hash64 11
   \<and> hash_Sum stub_lib (xxh3Hash64 11) [] = ([0, 0, 0, 0, 0, 0, 0, 11], xxh3Hash64 11)
   \<and> fst (hash_Sum stub_lib (snd (hash_Sum stub_lib (xxh3Hash64 11) [])) [])
       = [0, 0, 0, 0, 0, 0, 0, 11]
   \<and> hash_Write stub_lib (snd (hash_Sum stub_lib (xxh3Hash64 11) [])) [33] = xxh3Hash64 12
   \<and> snd (hash_Sum stub_lib
            (foldl (hash_Write stub_lib) (Hasher_New stub_lib xxh128Hasher)
               [bytes_of ''hello'', bytes_of '' world'']) [])
       = foldl (hash_Write stub_lib) (Hasher_New stub_lib xxh128Hasher)
           [bytes_of ''hello'', bytes_of '' world'']
   \<and> foldl (hash_Write stub_lib) (Hasher_New stub_lib quickxorHasher)
         [bytes_of ''hello'', bytes_of '' world'']
       = QuickXor (snd (Write New (bytes_of ''hello world'')))
   \<and> snd (hash_Sum stub_lib (QuickXor (snd (Write New (bytes_of ''hello world'')))) [])
       = QuickXor (snd (Write New (bytes_of ''hello world'')))
   \<and> base64_EncodeToString
         (fst (hash_Sum stub_lib
                 (snd (hash_Sum stub_lib
                         (QuickXor (snd (Write New (bytes_of ''hello world'')))) [])) []))
       = ''aCgDG9jwBhDc4Q1yawMZAAAAAAA=''"
proof -
  let ?q = "snd (Write New (bytes_of ''hello world''))"
  have hq: "case (QuickXor ?q :: nat hash_Hash) of
             QuickXor q \<Rightarrow> True
           | xxh3Hash64 h \<Rightarrow> snd (xxh3_Sum64 stub_lib h) = h
           | xxh3Hash128 h \<Rightarrow> snd (xxh3_Sum128 stub_lib h) = h
           | External A x \<Rightarrow> snd (ext_Sum stub_lib A x []) = x"
    by simp
  note tq = hash_Sum_idempotent [OF hq, of "[]" "[]" "[]" New]
  have bs: "bytes_of ''hello world'' = [104, 101, 108, 108, 111, 32, 119, 111, 114, 108, 100]"
    by (simp add: bytes_of_def)
  have cq: "concat [bytes_of ''hello'', bytes_of '' world''] = bytes_of ''hello world''"
    by (simp add: bytes_of_def)
  have "unat (size_q New) + length (concat [bytes_of ''hello'', bytes_of '' world'']) < 2 ^ 64"
    by (simp add: New_def bytes_of_def)
  then have "foldl (\<lambda>q c. snd (Write q c)) New [bytes_of ''hello'', bytes_of '' world'']
             = snd (Write New (concat [bytes_of ''hello'', bytes_of '' world'']))"
    by (intro foldl_Write_concat valid_New)
  then have rq: "foldl (hash_Write stub_lib) (Hasher_New stub_lib quickxorHasher)
                   [bytes_of ''hello'', bytes_of '' world''] = QuickXor ?q"
    by (simp only: Hasher_New.simps foldl_hash_Write_QuickXor cq)
  have uq: "snd (hash_Sum stub_lib (QuickXor ?q) []) = QuickXor ?q"
    using tq by blast
  have "length (bytes_of ''hello world'') < dataSize" by (simp add: bs dataSize_val)
  then have "checkSum ?q
             = checkSum_of (bytes_of ''hello world'') (of_nat (length (bytes_of ''hello world'')))"
    by (rule checkSum_Write_New)
  then have "base64_EncodeToString (take Size (checkSum ?q)) = ''aCgDG9jwBhDc4Q1yawMZAAAAAAA=''"
    by (simp only: bs) (simp add: checkSum_eval)
  moreover have "fst (hash_Sum stub_lib (snd (hash_Sum stub_lib (QuickXor ?q) [])) [])
                 = take Size (checkSum ?q)"
    using tq by simp
  ultimately have dq: "base64_EncodeToString
         (fst (hash_Sum stub_lib (snd (hash_Sum stub_lib (QuickXor ?q) [])) []))
       = ''aCgDG9jwBhDc4Q1yawMZAAAAAAA=''"
    by (simp only:)
  have h: "case xxh3Hash64 (11::nat) of
             QuickXor q \<Rightarrow> True
           | xxh3Hash64 h \<Rightarrow> snd (xxh3_Sum64 stub_lib h) = h
           | xxh3Hash128 h \<Rightarrow> snd (xxh3_Sum128 stub_lib h) = h
           | External A x \<Rightarrow> snd (ext_Sum stub_lib A x []) = x"
    by (simp add: stub_lib_def)
  have r: "foldl (hash_Write stub_lib) (Hasher_New stub_lib xxh3Hasher)
             [bytes_of ''hello'', bytes_of '' world''] = xxh3Hash64 11"
    by (simp add: stub_lib_def bytes_of_def)
  have e: "fst (hash_Sum stub_lib (xxh3Hash64 11) []) = [0, 0, 0, 0, 0, 0, 0, 11]"
    by (simp add: stub_lib_def BigEndian_PutUint64_def drop_bit_eq_div)
  have w: "hash_Write stub_lib (xxh3Hash64 11) [33] = xxh3Hash64 12"
    by (simp add: stub_lib_def)
  have s: "snd (xxh3_Sum64 stub_lib 11) = 11" by (simp add: stub_lib_def)
  have l: "(\<forall>h. snd (xxh3_Sum64 stub_lib h) = h) \<and> (\<forall>h. snd (xxh3_Sum128 stub_lib h) = h)
           \<and> (\<forall>B x. snd (ext_Sum stub_lib B x []) = x)"
    by (simp add: stub_lib_def)
  note t = hash_Sum_idempotent
             [OF h, of "[33]" "[]" "[bytes_of ''hello'', bytes_of '' world'']" New]
  have k: "snd (hash_Sum stub_lib
            (foldl (hash_Write stub_lib) (Hasher_New stub_lib xxh128Hasher)
               [bytes_of ''hello'', bytes_of '' world'']) [])
       = foldl (hash_Write stub_lib) (Hasher_New stub_lib xxh128Hasher)
           [bytes_of ''hello'', bytes_of '' world'']"
    using t l by blast
  have "hash_Sum stub_lib (xxh3Hash64 11) [] = ([0, 0, 0, 0, 0, 0, 0, 11], xxh3Hash64 11)
        \<and> fst (hash_Sum stub_lib (snd (hash_Sum stub_lib (xxh3Hash64 11) [])) [])
            = [0, 0, 0, 0, 0, 0, 0, 11]
        \<and> hash_Write stub_lib (snd (hash_Sum stub_lib (xxh3Hash64 11) [])) [33] = xxh3Hash64 12"
    using t e w by (simp add: prod_eq_iff)
  then show ?thesis using s l r k rq uq dq by blast
qed


section \<open>Properties of the filter\<close>

lemmas path_eval =
  filepath_Base_def filepath_ToSlash_def filepath_Ext_def strings_ToLower_def lower_char_def
  normalizeExt_def strings_HasPrefix_def char_of_eq_iff Let_def

text \<open>
  C8. With no extension and no glob list configured, \<open>Match\<close> rejects exactly the sizes
  outside the bounds: above \<open>MaxSize\<close> when that is positive, or below \<open>MinSize\<close>
  when that is positive; a bound of 0 is no bound.
\<close>

theorem Match_size_bounds:
  assumes "IncludeExts f = []" and "ExcludeExts f = []"
    and "IncludeGlobs f = []" and "ExcludeGlobs f = []"
  shows "Match f p sz = False
         \<longleftrightarrow> (MaxSize f > 0 \<and> sz > MaxSize f) \<or> (MinSize f > 0 \<and> sz < MinSize f)"
  using assms by (simp add: Match_def matchExtension_def matchGlob_def Let_def)

theorem Match_size_bounds_witness:
  "IncludeExts \<lparr>MaxSize = 5, MinSize = 0, IncludeExts = [], ExcludeExts = [],
                 IncludeGlobs = [], ExcludeGlobs = []\<rparr> = []
   \<and> Match \<lparr>MaxSize = 5, MinSize = 0, IncludeExts = [], ExcludeExts = [],
            IncludeGlobs = [], ExcludeGlobs = []\<rparr> ''test.txt'' 11 = False
   \<and> Match \<lparr>MaxSize = 5, MinSize = 0, IncludeExts = [], ExcludeExts = [],
            IncludeGlobs = [], ExcludeGlobs = []\<rparr> ''test.txt'' 5 = True"
  using Match_size_bounds [of "\<lparr>MaxSize = 5, MinSize = 0, IncludeExts = [], ExcludeExts = [],
            IncludeGlobs = [], ExcludeGlobs = []\<rparr>" "''test.txt''" 11]
    Match_size_bounds [of "\<lparr>MaxSize = 5, MinSize = 0, IncludeExts = [], ExcludeExts = [],
            IncludeGlobs = [], ExcludeGlobs = []\<rparr>" "''test.txt''" 5]
  by simp

lemma matchExtension_include_wins:
  "IncludeExts f \<noteq> [] \<Longrightarrow>
   matchExtension f path
     = ext_listed (IncludeExts f) (strings_ToLower (filepath_Ext path))"
  by (simp add: matchExtension_def Let_def)

lemma matchGlob_include_and_exclude:
  "IncludeGlobs f \<noteq> [] \<Longrightarrow> ExcludeGlobs f \<noteq> [] \<Longrightarrow>
   matchGlob f path
     = (glob_listed (IncludeGlobs f) (filepath_ToSlash path) (filepath_Base path)
        \<and> \<not> glob_listed (ExcludeGlobs f) (filepath_ToSlash path) (filepath_Base path))"
  by (auto simp: matchGlob_def Let_def)

text \<open>
  C4. The path \<open>a.txt\<close> matches the include glob \<open>*.txt\<close> and the exclude glob
  \<open>a*\<close>, and \<open>Match\<close> rejects it: \<open>matchGlob\<close> goes on to the exclude patterns
  after an include pattern matched. With the extension \<open>.txt\<close> in both extension
  lists the same path passes: \<open>matchExtension\<close> returns at the include match.
\<close>

theorem Match_include_and_exclude:
  "glob_listed [''*.txt''] (filepath_ToSlash ''a.txt'') (filepath_Base ''a.txt'')
   \<and> glob_listed [''a*''] (filepath_ToSlash ''a.txt'') (filepath_Base ''a.txt'')
   \<and> \<not> Match \<lparr>MaxSize = 0, MinSize = 0, IncludeExts = [], ExcludeExts = [],
              IncludeGlobs = [''*.txt''], ExcludeGlobs = [''a*'']\<rparr> ''a.txt'' 100
   \<and> Match \<lparr>MaxSize = 0, MinSize = 0, IncludeExts = [''.txt''], ExcludeExts = [''.txt''],
            IncludeGlobs = [], ExcludeGlobs = []\<rparr> ''a.txt'' 100"
  by (simp add: Match_def matchGlob_def matchExtension_def path_eval)

section \<open>Properties of the algorithm selection\<close>

lemma entries_Nil [simp]: "entries [] = []"
  by (simp add: entries_def)

lemma entries_Cons:
  "entries (part # parts) =
     (if strings_TrimSpace (strings_ToLower part) = [] then entries parts
      else strings_TrimSpace (strings_ToLower part) # entries parts)"
  by (simp add: entries_def)

lemma Parse_loop_no_entries:
  "entries parts = [] \<Longrightarrow> Parse_loop reg parts hashers seen = Inr hashers"
  by (induction parts) (simp_all add: entries_Cons Let_def split: if_splits)

lemma Parse_loop_Inl:
  "Parse_loop reg parts hashers seen = Inl err \<Longrightarrow>
   \<exists>name. err = UnknownAlgorithm name \<and> name \<in> set (entries parts) \<and> Get reg name = None"
proof (induction parts arbitrary: hashers seen)
  case Nil
  then show ?case by simp
next
  case (Cons part parts)
  let ?name = "strings_TrimSpace (strings_ToLower part)"
  show ?case
  proof (cases "?name = [] \<or> seen ?name")
    case True
    then have "Parse_loop reg parts hashers seen = Inl err"
      using Cons.prems by (auto simp: Let_def split: if_splits)
    from Cons.IH [OF this] show ?thesis by (auto simp: entries_Cons)
  next
    case False
    show ?thesis
    proof (cases "Get reg ?name")
      case None
      then have "err = UnknownAlgorithm ?name" using Cons.prems False by (simp add: Let_def)
      then show ?thesis using None False by (auto simp: entries_Cons)
    next
      case (Some h)
      then have "Parse_loop reg parts (hashers @ [h]) (seen(?name := True)) = Inl err"
        using Cons.prems False by (simp add: Let_def)
      from Cons.IH [OF this] show ?thesis by (auto simp: entries_Cons)
    qed
  qed
qed

lemma Parse_loop_Inr_prefix:
  "Parse_loop reg parts hashers seen = Inr hs \<Longrightarrow> \<exists>more. hs = hashers @ more"
proof (induction parts arbitrary: hashers seen)
  case Nil
  then show ?case by simp
next
  case (Cons part parts)
  let ?name = "strings_TrimSpace (strings_ToLower part)"
  show ?case
  proof (cases "?name = [] \<or> seen ?name")
    case True
    then have "Parse_loop reg parts hashers seen = Inr hs"
      using Cons.prems by (auto simp: Let_def split: if_splits)
    from Cons.IH [OF this] show ?thesis .
  next
    case False
    then obtain h where h: "Get reg ?name = Some h"
      and "Parse_loop reg parts (hashers @ [h]) (seen(?name := True)) = Inr hs"
      using Cons.prems by (cases "Get reg ?name") (auto simp: Let_def)
    from Cons.IH [OF this(2)] show ?thesis by auto
  qed
qed

lemma Parse_loop_unknown:
  assumes "\<And>name. seen name \<Longrightarrow> Get reg name \<noteq> None"
    and "name \<in> set (entries parts)" and "Get reg name = None"
  shows "\<exists>name'. Parse_loop reg parts hashers seen = Inl (UnknownAlgorithm name')"
  using assms
proof (induction parts arbitrary: hashers seen)
  case Nil
  then show ?case by simp
next
  case (Cons part parts)
  let ?name = "strings_TrimSpace (strings_ToLower part)"
  show ?case
  proof (cases "?name = [] \<or> seen ?name")
    case True
    then have eq: "Parse_loop reg (part # parts) hashers seen = Parse_loop reg parts hashers seen"
      by (auto simp: Let_def)
    have "name \<in> set (entries parts)"
    proof (cases "?name = []")
      case True
      then show ?thesis using Cons.prems(2) by (simp add: entries_Cons)
    next
      case False
      then have "seen ?name" using \<open>?name = [] \<or> seen ?name\<close> by simp
      then have "Get reg ?name \<noteq> None" by (rule Cons.prems(1))
      then have "name \<noteq> ?name" using Cons.prems(3) by auto
      then show ?thesis using Cons.prems(2) False by (simp add: entries_Cons)
    qed
    from Cons.IH [OF Cons.prems(1) this Cons.prems(3)] show ?thesis by (simp only: eq)
  next
    case False
    show ?thesis
    proof (cases "Get reg ?name")
      case None
      then show ?thesis using False by (simp add: Let_def)
    next
      case (Some h)
      then have eq: "Parse_loop reg (part # parts) hashers seen
                     = Parse_loop reg parts (hashers @ [h]) (seen(?name := True))"
        using False by (simp add: Let_def)
      have inv: "\<And>n. (seen(?name := True)) n \<Longrightarrow> Get reg n \<noteq> None"
        using Cons.prems(1) Some by (auto split: if_splits)
      have "name \<noteq> ?name" using Some Cons.prems(3) by auto
      then have "name \<in> set (entries parts)"
        using Cons.prems(2) by (auto simp: entries_Cons split: if_splits)
      from Cons.IH [OF inv this Cons.prems(3)] show ?thesis by (simp only: eq)
    qed
  qed
qed

lemma Parse_loop_not_empty:
  assumes "entries parts \<noteq> []" and "\<And>name. \<not> seen name"
  shows "Parse_loop reg parts [] seen \<noteq> Inr []"
  using assms
proof (induction parts)
  case Nil
  then show ?case by simp
next
  case (Cons part parts)
  let ?name = "strings_TrimSpace (strings_ToLower part)"
  show ?case
  proof (cases "?name = []")
    case True
    then show ?thesis using Cons by (simp add: Let_def entries_Cons)
  next
    case False
    show ?thesis
    proof (cases "Get reg ?name")
      case None
      then show ?thesis using False Cons.prems(2) by (simp add: Let_def)
    next
      case (Some h)
      then have eq: "Parse_loop reg (part # parts) [] seen
                     = Parse_loop reg parts [h] (seen(?name := True))"
        using False Cons.prems(2) by (simp add: Let_def)
      show ?thesis
      proof
        assume "Parse_loop reg (part # parts) [] seen = Inr []"
        then have "Parse_loop reg parts [h] (seen(?name := True)) = Inr []" by (simp only: eq)
        from Parse_loop_Inr_prefix [OF this] show False by simp
      qed
    qed
  qed
qed

lemmas string_eval =
  strings_ToLower_def lower_char_def strings_TrimSpace_def isSpace_def char_of_eq_iff Let_def

lemma registry_md5: "Get registry ''md5'' = Some md5Hasher"
  by (simp add: Get_def registry_def Register_def string_eval)

lemma registry_sha256: "Get registry ''sha256'' = Some sha256Hasher"
  by (simp add: Get_def registry_def Register_def string_eval)

lemma registry_bogus: "Get registry ''bogus'' = None"
  by (simp add: Get_def registry_def Register_def string_eval)

lemma Split_ex1: "strings_Split ''MD5, sha256 , md5'' CHR '','' = [''MD5'', '' sha256 '', '' md5'']"
  by simp

lemma Split_ex2: "strings_Split ''md5,sha256'' CHR '','' = [''md5'', ''sha256'']"
  by simp

lemma norm1: "strings_TrimSpace (strings_ToLower ''MD5'') = ''md5''"
  "strings_TrimSpace (strings_ToLower '' sha256 '') = ''sha256''"
  "strings_TrimSpace (strings_ToLower '' md5'') = ''md5''"
  "strings_TrimSpace (strings_ToLower ''md5'') = ''md5''"
  "strings_TrimSpace (strings_ToLower ''sha256'') = ''sha256''"
  by (simp_all add: string_eval)

lemma Parse_example_any:
  "Parse reg ''MD5, sha256 , md5'' = Parse reg ''md5,sha256''"
  by (simp add: Parse_def Split_ex1 Split_ex2 norm1 Let_def split: option.splits)

lemma Parse_example:
  "Parse registry ''MD5, sha256 , md5'' = Inr [md5Hasher, sha256Hasher]"
  by (simp add: Parse_def Split_ex1 norm1 Let_def registry_md5 registry_sha256)


lemma Parse_empty_iff:
  "(Parse reg names = Inl NoAlgorithmsSpecified \<or> Parse reg names = Inl NoValidAlgorithms)
   \<longleftrightarrow> (names = [] \<or> entries (strings_Split names CHR '','') = [])"
proof (cases "names = []")
  case True
  then show ?thesis by (simp add: Parse_def)
next
  case False
  let ?parts = "strings_Split names CHR '',''"
  let ?loop = "Parse_loop reg ?parts [] (\<lambda>name. False)"
  show ?thesis
  proof (cases "entries ?parts = []")
    case True
    then have "?loop = Inr []" by (rule Parse_loop_no_entries)
    then show ?thesis using False True by (simp add: Parse_def)
  next
    case ne: False
    then have n1: "?loop \<noteq> Inr []" by (intro Parse_loop_not_empty) simp_all
    have "Parse reg names \<noteq> Inl NoAlgorithmsSpecified \<and> Parse reg names \<noteq> Inl NoValidAlgorithms"
    proof (cases ?loop)
      case (Inl err)
      from Parse_loop_Inl [OF this] show ?thesis using False Inl by (auto simp: Parse_def)
    next
      case (Inr hs)
      then show ?thesis using False n1 by (auto simp: Parse_def)
    qed
    then show ?thesis using False ne by simp
  qed
qed

lemma Parse_unknown:
  assumes "name \<in> set (entries (strings_Split names CHR '','')) \<and> Get reg name = None"
  shows "\<exists>name'. Parse reg names = Inl (UnknownAlgorithm name')
                 \<and> name' \<in> set (entries (strings_Split names CHR '','')) \<and> Get reg name' = None"
proof -
  let ?parts = "strings_Split names CHR '',''"
  have ne: "names \<noteq> []" using assms by (auto simp: entries_def string_eval)
  obtain n where n: "Parse_loop reg ?parts [] (\<lambda>name. False) = Inl (UnknownAlgorithm n)"
    using Parse_loop_unknown [of "\<lambda>name. False" reg name ?parts "[]"] assms by auto
  from Parse_loop_Inl [OF n] have "n \<in> set (entries ?parts) \<and> Get reg n = None" by auto
  then show ?thesis using n ne by (auto simp: Parse_def)
qed

lemma find_removeAll:
  "\<not> P x \<Longrightarrow> List.find P (removeAll x xs) = List.find P xs"
  by (induction xs) auto

lemma filter_seen_update:
  "filter (\<lambda>n. \<not> (seen(x := True)) n) xs = removeAll x (filter (\<lambda>n. \<not> seen n) xs)"
  by (induction xs) auto

lemma map_filter_Cons_Some:
  "f x = Some y \<Longrightarrow> List.map_filter f (x # xs) = y # List.map_filter f xs"
  by (simp add: List.map_filter_simps)

lemma Parse_loop_eq:
  "Parse_loop reg parts hashers seen =
     (case List.find (\<lambda>name. Get reg name = None)
             (filter (\<lambda>name. \<not> seen name) (entries parts)) of
        Some name \<Rightarrow> Inl (UnknownAlgorithm name)
      | None \<Rightarrow>
          Inr (hashers
               @ List.map_filter (Get reg)
                   (firsts (filter (\<lambda>name. \<not> seen name) (entries parts)))))"
proof (induction parts arbitrary: hashers seen)
  case Nil
  show ?case by (simp add: List.map_filter_simps)
next
  case (Cons part parts)
  let ?name = "strings_TrimSpace (strings_ToLower part)"
  let ?rest = "filter (\<lambda>name. \<not> seen name) (entries parts)"
  show ?case
  proof (cases "?name = [] \<or> seen ?name")
    case True
    then have l: "Parse_loop reg (part # parts) hashers seen = Parse_loop reg parts hashers seen"
      by (auto simp: Let_def)
    have r: "filter (\<lambda>name. \<not> seen name) (entries (part # parts)) = ?rest"
      using True by (auto simp: entries_Cons)
    show ?thesis by (simp only: l r Cons.IH)
  next
    case False
    then have r: "filter (\<lambda>name. \<not> seen name) (entries (part # parts)) = ?name # ?rest"
      by (simp add: entries_Cons)
    show ?thesis
    proof (cases "Get reg ?name")
      case None
      then have "Parse_loop reg (part # parts) hashers seen = Inl (UnknownAlgorithm ?name)"
        using False by (simp add: Let_def)
      then show ?thesis using None by (simp only: r) simp
    next
      case (Some h)
      then have l: "Parse_loop reg (part # parts) hashers seen
                    = Parse_loop reg parts (hashers @ [h]) (seen(?name := True))"
        using False by (simp add: Let_def)
      have f: "List.find (\<lambda>name. Get reg name = None) (removeAll ?name ?rest)
               = List.find (\<lambda>name. Get reg name = None) ?rest"
        using Some by (intro find_removeAll) simp
      have m: "List.map_filter (Get reg) (firsts (?name # ?rest))
               = h # List.map_filter (Get reg) (firsts (removeAll ?name ?rest))"
        using Some by (simp add: map_filter_Cons_Some)
      have "Parse_loop reg (part # parts) hashers seen =
              (case List.find (\<lambda>name. Get reg name = None) ?rest of
                 Some name \<Rightarrow> Inl (UnknownAlgorithm name)
               | None \<Rightarrow>
                   Inr ((hashers @ [h])
                        @ List.map_filter (Get reg) (firsts (removeAll ?name ?rest))))"
        by (simp only: l Cons.IH filter_seen_update f)
      then show ?thesis
        using Some by (simp only: r m) (auto simp del: Parse_loop.simps split: option.splits)
    qed
  qed
qed

lemma firsts_Nil_iff [simp]: "firsts xs = [] \<longleftrightarrow> xs = []"
  by (cases xs) simp_all

lemma set_firsts [simp]: "set (firsts xs) = set xs"
  by (induction xs rule: firsts.induct) auto

lemma distinct_firsts: "distinct (firsts xs)"
  by (induction xs rule: firsts.induct) auto

lemma map_filter_registered:
  "\<forall>x \<in> set xs. f x \<noteq> None \<Longrightarrow> length (List.map_filter f xs) = length xs"
  by (induction xs) (auto simp: List.map_filter_simps split: option.splits)

lemma Parse_eq:
  "Parse reg names =
     (if names = [] then Inl NoAlgorithmsSpecified
      else (case List.find (\<lambda>name. Get reg name = None)
                   (entries (strings_Split names CHR '','')) of
              Some name \<Rightarrow> Inl (UnknownAlgorithm name)
            | None \<Rightarrow>
                if entries (strings_Split names CHR '','') = [] then Inl NoValidAlgorithms
                else Inr (List.map_filter (Get reg)
                            (firsts (entries (strings_Split names CHR '',''))))))"
proof (cases "names = []")
  case True
  then show ?thesis by (simp add: Parse_def)
next
  case False
  let ?es = "entries (strings_Split names CHR '','')"
  show ?thesis
  proof (cases "List.find (\<lambda>name. Get reg name = None) ?es")
    case (Some name)
    then show ?thesis using False by (simp add: Parse_def Parse_loop_eq)
  next
    case None
    then have reg: "\<forall>x \<in> set (firsts ?es). Get reg x \<noteq> None"
      by (auto simp: find_None_iff)
    have "length (List.map_filter (Get reg) (firsts ?es)) = length (firsts ?es)"
      using reg by (rule map_filter_registered)
    then have "List.map_filter (Get reg) (firsts ?es) = [] \<longleftrightarrow> ?es = []"
      by (metis firsts_Nil_iff length_0_conv)
    then show ?thesis using False None by (simp add: Parse_def Parse_loop_eq)
  qed
qed

lemma lower_char_idem: "lower_char (lower_char c) = lower_char c"
  by (simp add: lower_char_def Let_def)

lemma set_TrimSpace: "set (strings_TrimSpace s) \<subseteq> set s"
  by (auto simp: strings_TrimSpace_def dest!: set_dropWhileD)

lemma ToLower_entry:
  assumes "name \<in> set (entries parts)"
  shows "strings_ToLower name = name"
proof -
  obtain part where n: "name = strings_TrimSpace (strings_ToLower part)"
    using assms by (auto simp: entries_def)
  have "\<forall>c \<in> set name. lower_char c = c"
  proof
    fix c assume "c \<in> set name"
    then have "c \<in> set (strings_ToLower part)" using set_TrimSpace n by blast
    then show "lower_char c = c" by (auto simp: strings_ToLower_def lower_char_idem)
  qed
  then show ?thesis by (simp add: strings_ToLower_def map_idI)
qed

lemma registry_eq:
  "registry =
     [''md5'' \<mapsto> md5Hasher, ''sha1'' \<mapsto> sha1Hasher, ''sha256'' \<mapsto> sha256Hasher,
      ''sha512'' \<mapsto> sha512Hasher, ''crc32'' \<mapsto> crc32Hasher, ''blake3'' \<mapsto> blake3Hasher,
      ''xxh3'' \<mapsto> xxh3Hasher, ''xxh128'' \<mapsto> xxh128Hasher, ''quickxor'' \<mapsto> quickxorHasher]"
  by (simp add: registry_def Register_def string_eval)

lemma registry_Name: "registry k = Some h \<Longrightarrow> Name h = k"
  by (simp add: registry_eq split: if_splits)

lemma map_Name_registered:
  assumes "\<forall>n \<in> set ns. strings_ToLower n = n \<and> Get registry n \<noteq> None"
  shows "map Name (List.map_filter (Get registry) ns) = ns"
  using assms
proof (induction ns)
  case Nil
  show ?case by (simp add: List.map_filter_simps)
next
  case (Cons n ns)
  then obtain h where h: "Get registry n = Some h" by auto
  then have "registry n = Some h" using Cons.prems by (simp add: Get_def)
  then have "Name h = n" by (rule registry_Name)
  then show ?case using h Cons by (simp add: map_filter_Cons_Some)
qed

lemma Parse_registry_names:
  assumes "Parse registry names = Inr hs"
  shows "map Name hs = firsts (entries (strings_Split names CHR '',''))"
proof -
  let ?es = "entries (strings_Split names CHR '','')"
  have none: "List.find (\<lambda>name. Get registry name = None) ?es = None"
    using assms by (subst (asm) Parse_eq) (auto split: if_splits option.splits)
  have hs: "hs = List.map_filter (Get registry) (firsts ?es)"
    using assms none by (subst (asm) Parse_eq) (auto split: if_splits)
  have "\<forall>n \<in> set (firsts ?es). strings_ToLower n = n \<and> Get registry n \<noteq> None"
    using none by (auto simp: find_None_iff ToLower_entry)
  then show ?thesis unfolding hs by (rule map_Name_registered)
qed

lemma entries_ex: "entries (strings_Split ''md5,bogus'' CHR '','') = [''md5'', ''bogus'']"
  by (simp add: entries_def string_eval)

lemma entries_blank: "entries (strings_Split '' , '' CHR '','') = []"
  by (simp add: entries_def string_eval)

lemma entries_ex1:
  "entries (strings_Split ''MD5, sha256 , md5'' CHR '','') = [''md5'', ''sha256'', ''md5'']"
  by (simp add: entries_def string_eval)

text \<open>
  C7. For a selection string of ASCII bytes, \<open>Parse\<close> is this function of the entries
  (the parts between the commas, lowercased and trimmed, the empty ones left out): the
  empty string gives "no algorithms specified"; otherwise the first entry that is not
  registered gives the unknown-algorithm error with its name; otherwise a string without
  entries gives "no valid algorithms specified"; otherwise the result is the registered
  hashers of the first occurrences of the entries, in their order. With the registry of
  the repository the names of the result are those first occurrences. So the selections
  \<open>MD5, sha256 , md5\<close> and \<open>md5,sha256\<close> parse alike, to md5 then sha256; an entry that
  is not registered makes the result the unknown-algorithm error; and the result is one of
  the two empty-selection errors exactly when the string is empty or has no entry.
\<close>

theorem Parse_selection:
  assumes "isASCII names"
  shows "Parse reg names =
           (if names = [] then Inl NoAlgorithmsSpecified
            else (case List.find (\<lambda>name. Get reg name = None)
                         (entries (strings_Split names CHR '','')) of
                    Some name \<Rightarrow> Inl (UnknownAlgorithm name)
                  | None \<Rightarrow>
                      if entries (strings_Split names CHR '','') = []
                      then Inl NoValidAlgorithms
                      else Inr (List.map_filter (Get reg)
                                  (firsts (entries (strings_Split names CHR '',''))))))
         \<and> (\<forall>hs. Parse registry names = Inr hs \<longrightarrow>
                map Name hs = firsts (entries (strings_Split names CHR '','')))
         \<and> Parse reg ''MD5, sha256 , md5'' = Parse reg ''md5,sha256''
         \<and> Parse registry ''MD5, sha256 , md5'' = Inr [md5Hasher, sha256Hasher]
         \<and> ((\<exists>name. name \<in> set (entries (strings_Split names CHR '','')) \<and> Get reg name = None)
              \<longrightarrow> (\<exists>name. Parse reg names = Inl (UnknownAlgorithm name)
                          \<and> name \<in> set (entries (strings_Split names CHR '',''))
                          \<and> Get reg name = None))
         \<and> ((Parse reg names = Inl NoAlgorithmsSpecified \<or> Parse reg names = Inl NoValidAlgorithms)
              \<longleftrightarrow> (names = [] \<or> entries (strings_Split names CHR '','') = []))"
proof (intro conjI allI impI)
  show "Parse reg names =
           (if names = [] then Inl NoAlgorithmsSpecified
            else (case List.find (\<lambda>name. Get reg name = None)
                         (entries (strings_Split names CHR '','')) of
                    Some name \<Rightarrow> Inl (UnknownAlgorithm name)
                  | None \<Rightarrow>
                      if entries (strings_Split names CHR '','') = []
                      then Inl NoValidAlgorithms
                      else Inr (List.map_filter (Get reg)
                                  (firsts (entries (strings_Split names CHR '',''))))))"
    by (rule Parse_eq)
  show "Parse reg ''MD5, sha256 , md5'' = Parse reg ''md5,sha256''" by (rule Parse_example_any)
  show "Parse registry ''MD5, sha256 , md5'' = Inr [md5Hasher, sha256Hasher]"
    by (rule Parse_example)
  show "(Parse reg names = Inl NoAlgorithmsSpecified \<or> Parse reg names = Inl NoValidAlgorithms)
        \<longleftrightarrow> (names = [] \<or> entries (strings_Split names CHR '','') = [])"
    by (rule Parse_empty_iff)
next
  fix hs assume "Parse registry names = Inr hs"
  then show "map Name hs = firsts (entries (strings_Split names CHR '',''))"
    by (rule Parse_registry_names)
next
  assume "\<exists>name. name \<in> set (entries (strings_Split names CHR '','')) \<and> Get reg name = None"
  then obtain name
    where "name \<in> set (entries (strings_Split names CHR '','')) \<and> Get reg name = None"
    by blast
  then show "\<exists>name. Parse reg names = Inl (UnknownAlgorithm name)
                  \<and> name \<in> set (entries (strings_Split names CHR '',''))
                  \<and> Get reg name = None"
    by (rule Parse_unknown)
qed

theorem Parse_selection_witness:
  "isASCII ''md5,bogus''
   \<and> ''bogus'' \<in> set (entries (strings_Split ''md5,bogus'' CHR '',''))
   \<and> Get registry ''bogus'' = None
   \<and> Parse registry ''md5,bogus'' = Inl (UnknownAlgorithm ''bogus'')
   \<and> isASCII '' , ''
   \<and> entries (strings_Split '' , '' CHR '','') = []
   \<and> Parse registry '' , '' = Inl NoValidAlgorithms
   \<and> isASCII ''MD5, sha256 , md5''
   \<and> Parse registry ''MD5, sha256 , md5'' = Inr [md5Hasher, sha256Hasher]
   \<and> map Name [md5Hasher, sha256Hasher]
       = firsts (entries (strings_Split ''MD5, sha256 , md5'' CHR '',''))"
proof -
  have a1: "isASCII ''md5,bogus''" and a2: "isASCII '' , ''" and a3: "isASCII ''MD5, sha256 , md5''"
    by (simp_all add: isASCII_def)
  have h1: "''bogus'' \<in> set (entries (strings_Split ''md5,bogus'' CHR '',''))"
    by (simp only: entries_ex) simp
  have h2: "Get registry ''bogus'' = None" by (rule registry_bogus)
  have h3: "entries (strings_Split '' , '' CHR '','') = []" by (rule entries_blank)
  have u: "Parse registry ''md5,bogus'' = Inl (UnknownAlgorithm ''bogus'')"
    using Parse_selection [OF a1, of registry] registry_md5 registry_bogus
    by (simp add: entries_def string_eval)
  have e: "Parse registry '' , '' = Inl NoValidAlgorithms"
    using Parse_selection [OF a2, of registry] by (simp add: entries_def string_eval)
  have p: "Parse registry ''MD5, sha256 , md5'' = Inr [md5Hasher, sha256Hasher]"
    using Parse_selection [OF a3, of registry] by blast
  have n: "map Name [md5Hasher, sha256Hasher]
           = firsts (entries (strings_Split ''MD5, sha256 , md5'' CHR '',''))"
    using Parse_selection [OF a3, of registry] p by blast
  show ?thesis using a1 a2 a3 h1 h2 h3 u e p n by (intro conjI)
qed


section \<open>Properties of the multi-hash fan-out\<close>

lemma Name_inject: "Name a = Name b \<longleftrightarrow> a = b"
  by (cases a; cases b) simp_all

lemma foldl_multiWriter_Write:
  "foldl (multiWriter_Write lib) ws cs = map (\<lambda>w. foldl (hash_Write lib) w cs) ws"
  by (induction cs arbitrary: ws) (simp_all add: multiWriter_Write_def comp_def)

lemma io_Copy_eq:
  "io_Copy lib ws r =
     (case failure r of
        None \<Rightarrow> Inr (map (\<lambda>w. foldl (hash_Write lib) w (chunks r)) ws)
      | Some err \<Rightarrow> Inl err)"
  by (simp add: io_Copy_def foldl_multiWriter_Write)

lemma zip_map_same: "zip hs (map g hs) = map (\<lambda>h. (h, g h)) hs"
  by (induction hs) simp_all

lemma foldl_results:
  "foldl (\<lambda>results (h, hh). results(Name h \<mapsto> encode h (fst (hash_Sum lib hh []))))
     m (map (\<lambda>h. (h, g h)) hs) (Name A)
   = (if A \<in> set hs then Some (encode A (fst (hash_Sum lib (g A) []))) else m (Name A))"
  by (induction hs arbitrary: m) (auto simp: Name_inject)

lemma HashReader_eq:
  "hs \<noteq> [] \<Longrightarrow>
   HashReader lib r hs =
     (case failure r of
        None \<Rightarrow>
          Inr (foldl (\<lambda>results (h, hh). results(Name h \<mapsto> encode h (fst (hash_Sum lib hh []))))
                 Map.empty
                 (map (\<lambda>h. (h, foldl (hash_Write lib) (Hasher_New lib h) (chunks r))) hs))
      | Some err \<Rightarrow> Inl (FailedToReadData err))"
  by (simp add: HashReader_def io_Copy_eq zip_map_same [symmetric] comp_def Let_def
           split: option.splits)

lemma HashReader_lookup:
  assumes "A \<in> set hs"
  shows "map_sum id (\<lambda>m. m (Name A)) (HashReader lib r hs)
         = (case failure r of
              None \<Rightarrow> Inr (Some (runAlone lib (chunks r) A))
            | Some err \<Rightarrow> Inl (FailedToReadData err))"
proof -
  have "hs \<noteq> []" using assms by auto
  then show ?thesis
    using assms by (simp add: HashReader_eq foldl_results runAlone_def split: option.splits)
qed

lemma runAlone_quickxor:
  assumes "length (concat cs) < dataSize"
  shows "runAlone lib cs quickxorHasher
         = base64_EncodeToString
             (take Size (checkSum_of (concat cs) (of_nat (length (concat cs)))))"
proof -
  have "unat (size_q New) + length (concat cs) < 2 ^ 64"
    using assms by (simp add: New_def dataSize_val)
  then have "foldl (\<lambda>q c. snd (Write q c)) New cs = snd (Write New (concat cs))"
    by (intro foldl_Write_concat valid_New)
  then show ?thesis
    using assms
    by (simp add: runAlone_def foldl_hash_Write_QuickXor encode_def case_prod_beta
          Sum_q_Write_New)
qed

lemma HashReader_quickxor_single:
  assumes "failure r = None" and "length (concat (chunks r)) < dataSize"
  shows "HashReader lib r [quickxorHasher]
         = Inr [''quickxor'' \<mapsto> base64_EncodeToString
                  (take Size (checkSum_of (concat (chunks r))
                     (of_nat (length (concat (chunks r))))))]"
  using assms runAlone_quickxor [of "chunks r" lib]
  by (simp add: HashReader_eq runAlone_def)

lemma HashReader_hello_world:
  "HashReader lib \<lparr>chunks = [bytes_of ''hello world''], failure = None\<rparr> [quickxorHasher]
   = Inr [''quickxor'' \<mapsto> ''aCgDG9jwBhDc4Q1yawMZAAAAAAA='']"
proof -
  let ?r = "\<lparr>chunks = [bytes_of ''hello world''], failure = None\<rparr>"
  have c: "concat (chunks ?r) = [104, 101, 108, 108, 111, 32, 119, 111, 114, 108, 100]"
    by (simp add: bytes_of_def)
  have "failure ?r = None" and "length (concat (chunks ?r)) < dataSize"
    by (simp_all only: c) (simp_all add: dataSize_val)
  then show ?thesis
    by (simp only: HashReader_quickxor_single c) (simp add: checkSum_eval)
qed

text \<open>
  C2. For every list of hashers that contains \<open>A\<close>, every behaviour of the packages
  outside the repository and every reader, \<open>HashReader\<close> over the list gives for the
  name of \<open>A\<close> what \<open>HashReader\<close> over \<open>A\<close> alone gives (the same digest, or the
  same read error); and when the reader does not fail, that digest is the one of
  running \<open>A\<close> alone over the chunks.
\<close>

theorem HashReader_fan_out:
  assumes "A \<in> set hs"
  shows "map_sum id (\<lambda>m. m (Name A)) (HashReader lib r hs)
           = map_sum id (\<lambda>m. m (Name A)) (HashReader lib r [A])
         \<and> (failure r = None \<longrightarrow>
              (\<exists>m. HashReader lib r hs = Inr m \<and> m (Name A) = Some (runAlone lib (chunks r) A)))"
proof
  show "map_sum id (\<lambda>m. m (Name A)) (HashReader lib r hs)
        = map_sum id (\<lambda>m. m (Name A)) (HashReader lib r [A])"
    using assms by (simp add: HashReader_lookup)
  show "failure r = None \<longrightarrow>
          (\<exists>m. HashReader lib r hs = Inr m \<and> m (Name A) = Some (runAlone lib (chunks r) A))"
  proof
    assume "failure r = None"
    then have "map_sum id (\<lambda>m. m (Name A)) (HashReader lib r hs)
               = Inr (Some (runAlone lib (chunks r) A))"
      using assms by (simp add: HashReader_lookup)
    then show "\<exists>m. HashReader lib r hs = Inr m \<and> m (Name A) = Some (runAlone lib (chunks r) A)"
      by (cases "HashReader lib r hs") auto
  qed
qed

theorem HashReader_fan_out_witness:
  "quickxorHasher \<in> set [md5Hasher, quickxorHasher]
   \<and> failure \<lparr>chunks = [bytes_of ''hello'', bytes_of '' world''], failure = None\<rparr> = None
   \<and> (\<exists>m. HashReader
             \<lparr>ext_New = \<lambda>h. 0, ext_Write = \<lambda>h n p. n + length p,
              ext_Sum = \<lambda>h n b. (b @ [of_nat n], n),
              xxh3_New = 0, xxh3_Write = \<lambda>n p. n + length p,
              xxh3_Sum64 = \<lambda>n. (of_nat n, n),
              xxh3_Sum128 = \<lambda>n. (\<lparr>Hi = 0, Lo = of_nat n\<rparr>, n)\<rparr>
             \<lparr>chunks = [bytes_of ''hello'', bytes_of '' world''], failure = None\<rparr>
             [md5Hasher, quickxorHasher] = Inr m
          \<and> m ''quickxor'' = Some ''aCgDG9jwBhDc4Q1yawMZAAAAAAA='')"
proof -
  let ?lib = "\<lparr>ext_New = \<lambda>h. 0::nat, ext_Write = \<lambda>h n p. n + length p,
               ext_Sum = \<lambda>h n b. (b @ [of_nat n], n),
               xxh3_New = 0, xxh3_Write = \<lambda>n p. n + length p,
               xxh3_Sum64 = \<lambda>n. (of_nat n, n),
               xxh3_Sum128 = \<lambda>n. (\<lparr>Hi = 0, Lo = of_nat n\<rparr>, n)\<rparr>"
  let ?r = "\<lparr>chunks = [bytes_of ''hello'', bytes_of '' world''], failure = None\<rparr>"
  have h: "quickxorHasher \<in> set [md5Hasher, quickxorHasher]" by simp
  have c: "concat [bytes_of ''hello'', bytes_of '' world'']
           = [104, 101, 108, 108, 111, 32, 119, 111, 114, 108, 100]"
    by (simp add: bytes_of_def)
  have "length (concat [bytes_of ''hello'', bytes_of '' world'']) < dataSize"
    by (simp only: c) (simp add: dataSize_val)
  then have d: "runAlone ?lib (chunks ?r) quickxorHasher = ''aCgDG9jwBhDc4Q1yawMZAAAAAAA=''"
    by (simp only: runAlone_quickxor reader.simps c) (simp add: checkSum_eval)
  show ?thesis
    using h d HashReader_fan_out [OF h, of ?lib ?r] by simp
qed

section \<open>Properties of the scanner\<close>

lemma fst_HashFile_cases:
  "fst (HashFile lib fs path hs) = [EvOpen path]
   \<or> fst (HashFile lib fs path hs) = [EvOpen path, EvRead path]"
  by (simp add: HashFile_def split: sum.splits)

lemma dispatched_append [simp]: "dispatched (xs @ ys) = dispatched xs @ dispatched ys"
  by (induction xs rule: dispatched.induct) simp_all

lemma emitted_append [simp]: "emitted (xs @ ys) = emitted xs @ emitted ys"
  by (induction xs rule: emitted.induct) simp_all

lemma dispatched_HashFile [simp]: "dispatched (fst (HashFile lib fs path hs)) = []"
  using fst_HashFile_cases [of lib fs path hs] by auto

lemma emitted_HashFile [simp]: "emitted (fst (HashFile lib fs path hs)) = []"
  using fst_HashFile_cases [of lib fs path hs] by auto

lemma dispatched_ScanFile [simp]: "dispatched (fst (ScanFile lib fs s path)) = []"
  by (simp add: ScanFile_def split: sum.splits option.splits prod.splits)
     (metis dispatched_HashFile fst_conv)

lemma emitted_ScanFile [simp]: "emitted (fst (ScanFile lib fs s path)) = []"
  by (simp add: ScanFile_def split: sum.splits option.splits prod.splits)
     (metis emitted_HashFile fst_conv)

lemma ScanFiles_worker_eq:
  "ScanFiles_worker lib fs s path =
     fst (ScanFile lib fs s path)
     @ (case snd (ScanFile lib fs s path) of None \<Rightarrow> [] | Some result \<Rightarrow> [Emit result])"
  by (simp add: ScanFiles_worker_def split: prod.splits option.splits)

lemma dispatched_ScanFiles_worker [simp]: "dispatched (ScanFiles_worker lib fs s path) = []"
  by (simp add: ScanFiles_worker_eq split: option.splits)

lemma emitted_ScanFiles_worker:
  "emitted (ScanFiles_worker lib fs s path) =
     (case snd (ScanFile lib fs s path) of None \<Rightarrow> [] | Some result \<Rightarrow> [result])"
  by (simp add: ScanFiles_worker_eq split: option.splits)

lemma dispatched_ScanFiles_loop [simp]: "dispatched (ScanFiles_loop lib fs s paths) = paths"
  by (induction paths) simp_all

lemma ScanFiles_one_worker:
  "Workers s = 1 \<Longrightarrow>
   ScanFiles lib fs s paths = Finished (ScanFiles_loop lib fs s paths @ [Close])"
  by (simp add: ScanFiles_def)


lemma ScanFiles_loop_append:
  "ScanFiles_loop lib fs s (ps @ qs) = ScanFiles_loop lib fs s ps @ ScanFiles_loop lib fs s qs"
  by (induction ps) simp_all

lemma emitted_ScanFiles_loop:
  "emitted (ScanFiles_loop lib fs s paths) =
     concat (map (\<lambda>path. case snd (ScanFile lib fs s path) of
                             None \<Rightarrow> [] | Some result \<Rightarrow> [result]) paths)"
  by (induction paths) (simp_all add: emitted_ScanFiles_worker)

lemma reads_HashFile_Nil_iff [simp]: "reads (fst (HashFile lib fs path hs)) \<noteq> []"
  using fst_HashFile_cases [of lib fs path hs] by auto


lemma ScanFile_rejected:
  assumes "Filter s = Some f" and "os_Stat fs path = Inr info" and "\<not> IsDir info"
    and "\<not> Match f path (Size_fi info)"
  shows "ScanFile lib fs s path = ([EvStat path], None)"
  using assms by (simp add: ScanFile_def)

lemma ScanFile_directory:
  assumes "os_Stat fs path = Inr info" and "IsDir info"
  shows "ScanFile lib fs s path = ([EvStat path], Some (error_Result path ErrInvalid))"
  using assms by (simp add: ScanFile_def)

lemma ScanFile_stat_failed:
  assumes "os_Stat fs path = Inl err"
  shows "ScanFile lib fs s path = ([EvStat path], Some (error_Result path (OsError err)))"
  using assms by (simp add: ScanFile_def)




lemma Error_error_Result [simp]: "Error (error_Result path err) = Some err"
  by (simp add: error_Result_def)



lemma HashFile_sample_test_txt:
  "HashFile lib sample_fs ''test.txt'' [quickxorHasher]
   = ([EvOpen ''test.txt'', EvRead ''test.txt''],
      Inr [''quickxor'' \<mapsto> ''aCgDG9jwBhDc4Q1yawMZAAAAAAA=''])"
  by (simp add: HashFile_def sample_fs_def HashReader_hello_world)

lemma HashFile_sample_logs:
  "HashFile lib sample_fs ''logs'' [quickxorHasher]
   = ([EvOpen ''logs'', EvRead ''logs''], Inl (FailedToReadData 21))"
  by (simp add: HashFile_def sample_fs_def HashReader_eq)

lemma ScanFile_sample_test_txt:
  "ScanFile lib sample_fs
     \<lparr>Workers = 1, Filter = None, Hashers = [quickxorHasher], OnError = e,
      Recursive = True, AbsolutePath = False\<rparr> ''test.txt''
   = ([EvStat ''test.txt'', EvOpen ''test.txt'', EvRead ''test.txt''],
      Some \<lparr>Path = ''test.txt'', Size_r = 11,
            Hashes = Some [''quickxor'' \<mapsto> ''aCgDG9jwBhDc4Q1yawMZAAAAAAA=''],
            Error = None\<rparr>)"
proof -
  have "os_Stat sample_fs ''test.txt'' = Inr \<lparr>IsDir = False, Size_fi = 11\<rparr>"
    by (simp add: sample_fs_def)
  then show ?thesis
    by (simp add: ScanFile_def HashFile_sample_test_txt hashed_Result_def outputPath_of_def)
qed




lemma kept_append [simp]: "kept s (xs @ ys) = kept s xs @ kept s ys"
  by (simp add: kept_def)

lemma kept_Nil [simp]: "kept s [] = []"
  by (simp add: kept_def)

lemma walkFn_error_state:
  "fst (snd (walkFn_error s path e st)) = fst st
   \<and> dispatched (snd (snd (walkFn_error s path e st))) = dispatched (snd st)"
  by (simp add: walkFn_error_def)







lemma dispatched_processFile [simp]: "dispatched (fst (processFile lib fs s path)) = []"
  by (simp add: processFile_def split: sum.splits prod.splits)
     (metis dispatched_HashFile fst_conv)

lemma dispatched_ScanDir_worker [simp]: "dispatched (ScanDir_worker lib fs s path) = []"
  by (cases "processFile lib fs s path")
     (use dispatched_processFile [of lib fs s path] in
       \<open>auto simp: ScanDir_worker_def split: option.splits\<close>)

lemma dispatched_ScanDir_loop [simp]: "dispatched (ScanDir_loop lib fs s files) = files"
  by (induction files) simp_all









text \<open>
  C10, as the claim states it, fails for a directory: the filter rejects the path
  \<open>logs\<close> (its extension is not in the include list), and \<open>ScanFile\<close> returns the
  invalid-target failure Result, which \<open>ScanFiles\<close> emits.
\<close>

theorem ScanFile_rejected_directory:
  "os_Stat sample_fs ''logs'' = Inr \<lparr>IsDir = True, Size_fi = 4096\<rparr>
   \<and> \<not> Match \<lparr>MaxSize = 0, MinSize = 0, IncludeExts = [''.txt''], ExcludeExts = [],
               IncludeGlobs = [], ExcludeGlobs = []\<rparr> ''logs'' 4096
   \<and> snd (ScanFile stub_lib sample_fs
            \<lparr>Workers = 1,
             Filter = Some \<lparr>MaxSize = 0, MinSize = 0, IncludeExts = [''.txt''], ExcludeExts = [],
                            IncludeGlobs = [], ExcludeGlobs = []\<rparr>,
             Hashers = [quickxorHasher], OnError = SkipOnError, Recursive = True,
             AbsolutePath = False\<rparr> ''logs'')
       = Some (error_Result ''logs'' ErrInvalid)
   \<and> ScanFiles stub_lib sample_fs
            \<lparr>Workers = 1,
             Filter = Some \<lparr>MaxSize = 0, MinSize = 0, IncludeExts = [''.txt''], ExcludeExts = [],
                            IncludeGlobs = [], ExcludeGlobs = []\<rparr>,
             Hashers = [quickxorHasher], OnError = SkipOnError, Recursive = True,
             AbsolutePath = False\<rparr> [''logs'']
       = Finished
           [Dispatch ''logs'', EvStat ''logs'', Emit (error_Result ''logs'' ErrInvalid), Close]"
proof -
  have st: "os_Stat sample_fs ''logs'' = Inr \<lparr>IsDir = True, Size_fi = 4096\<rparr>"
    by (simp add: sample_fs_def)
  have m: "\<not> Match \<lparr>MaxSize = 0, MinSize = 0, IncludeExts = [''.txt''], ExcludeExts = [],
               IncludeGlobs = [], ExcludeGlobs = []\<rparr> ''logs'' 4096"
    by (simp add: Match_def matchExtension_def path_eval)
  have sf: "ScanFile stub_lib sample_fs s ''logs''
            = ([EvStat ''logs''], Some (error_Result ''logs'' ErrInvalid))" for s
    using st by (rule ScanFile_directory) simp
  show ?thesis
    using st m by (simp add: sf ScanFiles_def ScanFiles_worker_eq)
qed

text \<open>
  C10, amended. For every path that \<open>os.Stat\<close> reports as no directory and that the
  configured filter rejects, \<open>ScanFile\<close> returns nil after the stat alone and the worker
  of \<open>ScanFiles\<close> emits nothing for it. With one worker, the scan of a list that contains
  it is the scan of the paths before it, the dispatch and the stat of the path, and the
  scan of the paths after it: its results are those of the paths before it followed by
  those of the paths after it.
\<close>

theorem ScanFile_filtered_out:
  assumes "Filter s = Some f" and "os_Stat fs path = Inr info" and "\<not> IsDir info"
    and "\<not> Match f path (Size_fi info)"
  shows "ScanFile lib fs s path = ([EvStat path], None)
         \<and> emitted (ScanFiles_worker lib fs s path) = []
         \<and> (Workers s = 1 \<longrightarrow>
              (\<exists>evs front back.
                 ScanFiles lib fs s (ps @ path # qs) = Finished evs
                 \<and> ScanFiles lib fs s ps = Finished front
                 \<and> ScanFiles lib fs s qs = Finished back
                 \<and> emitted evs = emitted front @ emitted back
                 \<and> evs = butlast front @ [Dispatch path, EvStat path] @ back))"
proof (intro conjI impI)
  have sf: "ScanFile lib fs s path = ([EvStat path], None)"
    by (rule ScanFile_rejected [OF assms])
  show "ScanFile lib fs s path = ([EvStat path], None)" by (rule sf)
  show "emitted (ScanFiles_worker lib fs s path) = []"
    by (simp add: emitted_ScanFiles_worker sf)
  assume w: "Workers s = 1"
  have wk: "ScanFiles_worker lib fs s path = [EvStat path]"
    by (simp add: ScanFiles_worker_eq sf)
  have "ScanFiles lib fs s (ps @ path # qs)
        = Finished (butlast (ScanFiles_loop lib fs s ps @ [Close])
                    @ [Dispatch path, EvStat path] @ (ScanFiles_loop lib fs s qs @ [Close]))"
    by (simp add: ScanFiles_one_worker [OF w] ScanFiles_loop_append wk)
  moreover have "emitted (butlast (ScanFiles_loop lib fs s ps @ [Close])
                    @ [Dispatch path, EvStat path] @ (ScanFiles_loop lib fs s qs @ [Close]))
                 = emitted (ScanFiles_loop lib fs s ps @ [Close])
                   @ emitted (ScanFiles_loop lib fs s qs @ [Close])"
    by simp
  ultimately show "\<exists>evs front back.
                 ScanFiles lib fs s (ps @ path # qs) = Finished evs
                 \<and> ScanFiles lib fs s ps = Finished front
                 \<and> ScanFiles lib fs s qs = Finished back
                 \<and> emitted evs = emitted front @ emitted back
                 \<and> evs = butlast front @ [Dispatch path, EvStat path] @ back"
    using ScanFiles_one_worker [OF w, of lib fs ps] ScanFiles_one_worker [OF w, of lib fs qs]
    by blast
qed

theorem ScanFile_filtered_out_witness:
  "os_Stat sample_fs ''test.txt'' = Inr \<lparr>IsDir = False, Size_fi = 11\<rparr>
   \<and> \<not> Match \<lparr>MaxSize = 5, MinSize = 0, IncludeExts = [], ExcludeExts = [],
               IncludeGlobs = [], ExcludeGlobs = []\<rparr> ''test.txt'' 11
   \<and> ScanFile stub_lib sample_fs
        \<lparr>Workers = 1,
         Filter = Some \<lparr>MaxSize = 5, MinSize = 0, IncludeExts = [], ExcludeExts = [],
                        IncludeGlobs = [], ExcludeGlobs = []\<rparr>,
         Hashers = [quickxorHasher], OnError = SkipOnError, Recursive = True,
         AbsolutePath = False\<rparr> ''test.txt''
       = ([EvStat ''test.txt''], None)
   \<and> Workers
        \<lparr>Workers = 1,
         Filter = Some \<lparr>MaxSize = 5, MinSize = 0, IncludeExts = [], ExcludeExts = [],
                        IncludeGlobs = [], ExcludeGlobs = []\<rparr>,
         Hashers = [quickxorHasher], OnError = SkipOnError, Recursive = True,
         AbsolutePath = False\<rparr> = 1
   \<and> ScanFiles stub_lib sample_fs
        \<lparr>Workers = 1,
         Filter = Some \<lparr>MaxSize = 5, MinSize = 0, IncludeExts = [], ExcludeExts = [],
                        IncludeGlobs = [], ExcludeGlobs = []\<rparr>,
         Hashers = [quickxorHasher], OnError = SkipOnError, Recursive = True,
         AbsolutePath = False\<rparr> [''test.txt'']
       = Finished [Dispatch ''test.txt'', EvStat ''test.txt'', Close]"
proof -
  let ?f = "\<lparr>MaxSize = 5, MinSize = 0, IncludeExts = [], ExcludeExts = [],
               IncludeGlobs = [], ExcludeGlobs = []\<rparr>"
  let ?s = "\<lparr>Workers = 1, Filter = Some ?f, Hashers = [quickxorHasher],
              OnError = SkipOnError, Recursive = True, AbsolutePath = False\<rparr>"
  let ?info = "\<lparr>IsDir = False, Size_fi = 11\<rparr>"
  have h1: "Filter ?s = Some ?f" by simp
  have h2: "os_Stat sample_fs ''test.txt'' = Inr ?info" by (simp add: sample_fs_def)
  have h3: "\<not> IsDir ?info" by simp
  have h4: "\<not> Match ?f ''test.txt'' (Size_fi ?info)" by (simp add: Match_def)
  have w: "Workers ?s = 1" by simp
  have e: "ScanFiles stub_lib sample_fs ?s [] = Finished [Close]" by (simp add: ScanFiles_def)
  have "ScanFiles stub_lib sample_fs ?s [''test.txt'']
        = Finished [Dispatch ''test.txt'', EvStat ''test.txt'', Close]"
    using ScanFile_filtered_out [OF h1 h2 h3 h4, of stub_lib "[]" "[]"] w
    by (simp only: e append_Nil) auto
  then show ?thesis
    using h2 h4 w ScanFile_filtered_out [OF h1 h2 h3 h4, of stub_lib "[]" "[]"] by simp
qed

text \<open>
  C5. Under \<open>FailOnError\<close> with one worker, the scan of the list \<open>missing\<close>,
  \<open>test.txt\<close> emits the failure of \<open>missing\<close> and then dispatches, hashes and emits
  \<open>test.txt\<close>: the failure does not stop the dispatch of the paths after it.
\<close>

theorem ScanFiles_FailOnError_dispatch:
  "ScanFiles stub_lib sample_fs
     \<lparr>Workers = 1, Filter = None, Hashers = [quickxorHasher], OnError = FailOnError,
      Recursive = True, AbsolutePath = False\<rparr>
     [''missing'', ''test.txt'']
   = Finished
       [Dispatch ''missing'', EvStat ''missing'', Emit (error_Result ''missing'' (OsError 2)),
        Dispatch ''test.txt'', EvStat ''test.txt'', EvOpen ''test.txt'', EvRead ''test.txt'',
        Emit \<lparr>Path = ''test.txt'', Size_r = 11,
              Hashes = Some [''quickxor'' \<mapsto> ''aCgDG9jwBhDc4Q1yawMZAAAAAAA=''], Error = None\<rparr>,
        Close]"
proof -
  have st: "os_Stat sample_fs ''missing'' = Inl 2" by (simp add: sample_fs_def)
  show ?thesis
    by (simp add: ScanFiles_def ScanFiles_worker_def ScanFile_sample_test_txt
          ScanFile_stat_failed [OF st] error_Result_def)
qed

end
